theory Spec2Isabelle
  imports Main
begin

section \<open>Data model of lib/commands/install.js\<close>

text \<open>
  The install command of Seed keeps one \<open>InstallContext\<close> per invocation. Its package
  descriptors are JavaScript objects that are shared by reference between the cache, the
  callers and the memoized jobs attached to them, and that are mutated in place (\<open>path\<close>,
  \<open>prepareJob\<close>, \<open>installJob\<close>). The embedding keeps them in an explicit store
  (\<open>heap\<close>, a list addressed by position); a \<open>ref\<close> is the address of one descriptor object.

  Strings that may be \<open>undefined\<close> or \<open>null\<close> are \<open>string option\<close>; JavaScript's
  truthiness test on them is \<open>truthy\<close> (the empty string is falsy as well).
\<close>

type_synonym ref = nat

fun truthy :: "string option \<Rightarrow> bool" where
  "truthy None = False"
| "truthy (Some s) = (s \<noteq> [])"

fun falsy :: "string option \<Rightarrow> bool" where
  "falsy None = True"
| "falsy (Some s) = (s = [])"

text \<open>What a remote's listing says of one package (\<open>remotePackageInfo\<close>).\<close>

record packageInfo =
  info_name :: string
  info_version :: string
  info_dependencies :: "(string \<times> string) list option"

text \<open>A package as the loader \<open>require.packageFor\<close> returns it (\<open>pkg.get(..)\<close>, \<open>pkg.path\<close>).\<close>

record package =
  pkg_name :: string
  pkg_version :: string
  pkg_dependencies :: "(string \<times> string) list option"
  pkg_path :: string

text \<open>The query object \<open>opts\<close> that \<open>findDescriptor\<close> hands to \<open>remote.list\<close>.\<close>

record listOpts =
  opt_name :: string
  opt_version :: "string option"
  opt_exact :: string
  opt_dependencies :: bool

text \<open>
  A remote is an external collaborator with three operations, each of which answers through
  a callback \<open>(err, value)\<close>. The embedding takes the answer as the function's result.
\<close>

record remote =
  remote_url :: string
  remote_list :: "listOpts \<Rightarrow> string option \<times> packageInfo list option"
  remote_fetch :: "packageInfo option \<Rightarrow> string option \<times> string option"
  remote_cleanup :: "string option \<Rightarrow> string option"

datatype location = LocLocal | LocRemote

text \<open>
  The state of a job made by \<open>CORE.once\<close>: the field is \<open>None\<close> until the job is created;
  a created job is in flight (\<open>Running\<close>) or has called back with an error value
  (\<open>Finished err\<close>).
\<close>

datatype job = Running | Finished "string option"

record descriptor =
  name :: string
  version :: string
  dependencies :: "(string \<times> string) list"
  remote :: "remote option"
  info :: "packageInfo option"
  path :: "string option"
  location :: location
  prepareJob :: "job option"
  installJob :: "job option"

text \<open>
  What the run does to the outside world, in order: calls of the collaborators, the start of
  an install job's body for a descriptor, and calls of the command's completion callback.
\<close>

datatype event =
    EvList string listOpts
  | EvFetch string "packageInfo option"
  | EvCleanup string "string option"
  | EvLoad "string option"
  | EvJob ref
  | EvInstall ref package
  | EvWarn string
  | EvDone "string option"

text \<open>
  \<open>InstallContext\<close>: \<open>source\<close> is the destination's \<open>install\<close> operation, \<open>descriptors\<close> the
  cache (package id to the array of its descriptors). The fields \<open>_jobs\<close> and \<open>_cache\<close> of the
  source are never read and are left out.
\<close>

record installContext =
  source :: "package \<Rightarrow> string option"
  remotes :: "remote list"
  includeDependencies :: "bool option"
  descriptors :: "string \<Rightarrow> ref list option"
  heap :: "descriptor list"
  trace :: "event list"

text \<open>
  \<open>this.descriptors = {}\<close> is a plain object, so a read \<open>this.descriptors[packageId]\<close> that
  finds no array stored under the id goes on to \<open>Object.prototype\<close>: for an id such as
  \<open>constructor\<close>, \<open>toString\<close> or \<open>__proto__\<close> it yields the inherited member. What the code can
  see of such a member is whether it is a function, whose \<open>length\<close> is the number of its
  declared parameters, or an object without a \<open>length\<close>. None of them has indexed elements
  or a method \<open>push\<close>.
\<close>

datatype inherited = InheritedFunction nat | InheritedObject

text \<open>
  The modules the file requires and does not define: \<open>tiki\<close>'s \<open>semver\<close>, the package loader
  \<open>require.packageFor\<close> (it throws, or returns a package or nothing), \<open>CORE.path.normalize\<close>
  and \<open>CORE.inspect\<close>. They are parameters of the embedding, as are the members of the
  engine's \<open>Object.prototype\<close> (\<open>object_prototype\<close>, by name).
\<close>

record env =
  semver_compatible :: "string \<Rightarrow> string \<Rightarrow> bool"
  semver_compare :: "string \<Rightarrow> string \<Rightarrow> int"
  semver_normalize :: "string \<Rightarrow> string"
  packageFor :: "string option \<Rightarrow> string + package option"
  path_normalize :: "string \<Rightarrow> string"
  inspect :: "descriptor \<Rightarrow> string"
  object_prototype :: "string \<Rightarrow> inherited option"

section \<open>The descriptor cache\<close>

subsection \<open>descriptorFor\<close>

text \<open>What \<open>this.descriptors[packageId]\<close> reads: an own array first, else an inherited member.\<close>

datatype cache_entry = NoEntry | Array "ref list" | Inherited inherited

fun cache_get :: "env \<Rightarrow> installContext \<Rightarrow> string \<Rightarrow> cache_entry" where
  "cache_get E ctx packageId =
     (case descriptors ctx packageId of
        Some ds \<Rightarrow> Array ds
      | None \<Rightarrow> (case object_prototype E packageId of Some member \<Rightarrow> Inherited member | None \<Rightarrow> NoEntry))"

text \<open>
  The function returns \<open>null\<close> when the read gives nothing, and the local \<open>ret\<close> otherwise,
  which is still \<open>undefined\<close> when no element was picked. \<open>TypeError\<close> stands for the
  exception that leaves the function when it reads \<open>cur.version\<close> of an \<open>undefined\<close> element.
\<close>

datatype lookup = Null | Undefined | Found ref | TypeError

fun found :: "lookup \<Rightarrow> bool" where
  "found (Found r) = True"
| "found _ = False"

text \<open>One turn of the loop body, for the element \<open>cur\<close> and the current \<open>ret\<close>.\<close>

fun descriptorFor_step ::
  "env \<Rightarrow> descriptor list \<Rightarrow> string option \<Rightarrow> bool \<Rightarrow> ref option \<Rightarrow> ref \<Rightarrow> ref option" where
  "descriptorFor_step E h v exact ret cur =
     (if falsy v \<or> (\<not> exact \<and> (case v of Some s \<Rightarrow> semver_compatible E s (version (h ! cur)) | None \<Rightarrow> False)) then
        (case ret of
           None \<Rightarrow> Some cur
         | Some r \<Rightarrow> if semver_compare E (version (h ! r)) (version (h ! cur)) < 0 then Some cur else ret)
      else if Some (version (h ! cur)) = v then Some cur
      else ret)"

fun descriptorFor_loop ::
  "env \<Rightarrow> descriptor list \<Rightarrow> string option \<Rightarrow> bool \<Rightarrow> ref list \<Rightarrow> ref option \<Rightarrow> ref option" where
  "descriptorFor_loop E h v exact [] ret = ret"
| "descriptorFor_loop E h v exact (cur # rest) ret =
     descriptorFor_loop E h v exact rest (descriptorFor_step E h v exact ret cur)"

text \<open>
  The loop over an inherited member. An object has no \<open>length\<close>, the test \<open>idx < undefined\<close>
  fails and \<open>ret\<close> is returned as it is. For a function the loop runs \<open>length\<close> times and
  every element \<open>desc[idx]\<close> is \<open>undefined\<close>: without a version the first branch assigns
  \<open>ret = cur\<close>, which leaves \<open>ret\<close> \<open>undefined\<close>; with a version the first turn reads
  \<open>cur.version\<close>, in the call of \<open>SEMVER.compatible\<close> or in the comparison with \<open>version\<close>,
  and throws.
\<close>

fun descriptorFor_inherited :: "string option \<Rightarrow> inherited \<Rightarrow> lookup" where
  "descriptorFor_inherited v (InheritedFunction n) = (if truthy v \<and> 0 < n then TypeError else Undefined)"
| "descriptorFor_inherited v InheritedObject = Undefined"

fun descriptorFor :: "env \<Rightarrow> installContext \<Rightarrow> string \<Rightarrow> string option \<Rightarrow> bool \<Rightarrow> lookup" where
  "descriptorFor E ctx packageId v exact =
     (case cache_get E ctx packageId of
        NoEntry \<Rightarrow> Null
      | Array desc \<Rightarrow>
          (case descriptorFor_loop E (heap ctx) v exact desc None of
             None \<Rightarrow> Undefined
           | Some r \<Rightarrow> Found r)
      | Inherited member \<Rightarrow> descriptorFor_inherited v member)"

subsection \<open>addDescriptor\<close>

text \<open>
  \<open>lim = desc.length\<close> reads the property \<open>length\<close> of the descriptor being added, not of the
  array \<open>descriptors\<close>. A descriptor is an object literal made by
  \<open>buildDescriptorFromPackage\<close> or \<open>buildDescriptorFromRemote\<close> with the fields of the record
  above, so the property is missing and the read gives \<open>undefined\<close>.
\<close>

fun desc_length :: "descriptor \<Rightarrow> nat option" where
  "desc_length d = None"

text \<open>\<open>idx < lim\<close> for a number and a number or \<open>undefined\<close>: false against \<open>undefined\<close>.\<close>

fun js_lt :: "nat \<Rightarrow> nat option \<Rightarrow> bool" where
  "js_lt i None = False"
| "js_lt i (Some l) = (i < l)"

text \<open>
  The scan \<open>for(idx=0; !found && idx<lim; idx++)\<close>, returning \<open>idx\<close> and \<open>found\<close> as the loop
  leaves them. Reading \<open>descriptors[idx].version\<close> past the end of the array throws a
  \<open>TypeError\<close>: the result \<open>None\<close>.
\<close>

function addDescriptor_scan ::
  "descriptor list \<Rightarrow> ref list \<Rightarrow> string \<Rightarrow> nat option \<Rightarrow> nat \<Rightarrow> bool \<Rightarrow> (nat \<times> bool) option" where
  "addDescriptor_scan h ds v lim idx fnd =
     (if \<not> fnd \<and> js_lt idx lim then
        (if idx < length ds
         then addDescriptor_scan h ds v lim (Suc idx) (version (h ! (ds ! idx)) = v)
         else None)
      else Some (idx, fnd))"
  by pat_completeness auto
termination
proof (relation "measure (\<lambda>(h, ds, v, lim, idx, fnd). (case lim of None \<Rightarrow> 0 | Some l \<Rightarrow> l - idx))")
  fix h :: "descriptor list" and ds :: "ref list" and v :: string
    and lim :: "nat option" and idx :: nat and fnd :: bool
  assume "\<not> fnd \<and> js_lt idx lim" "idx < length ds"
  then show "((h, ds, v, lim, Suc idx, version (h ! (ds ! idx)) = v), (h, ds, v, lim, idx, fnd))
      \<in> measure (\<lambda>(h, ds, v, lim, idx, fnd). (case lim of None \<Rightarrow> 0 | Some l \<Rightarrow> l - idx))"
    by (cases lim) auto
qed simp

text \<open>\<open>descriptors[idx] = desc\<close>: an assignment at the end of the array appends.\<close>

fun js_set :: "'a list \<Rightarrow> nat \<Rightarrow> 'a \<Rightarrow> 'a list" where
  "js_set xs i x = (if i < length xs then xs[i := x] else xs @ [x])"

text \<open>
  Whether the read of the cache under an id gives an inherited member: the member is truthy,
  so \<open>addDescriptor\<close> creates no array and goes on with the member as \<open>descriptors\<close>.
\<close>

fun inherits :: "env \<Rightarrow> installContext \<Rightarrow> string \<Rightarrow> bool" where
  "inherits E ctx packageId =
     (case cache_get E ctx packageId of Inherited member \<Rightarrow> True | Array ds \<Rightarrow> False | NoEntry \<Rightarrow> False)"

text \<open>
  \<open>addDescriptor(desc, overlay)\<close> for the descriptor object at \<open>r\<close>. The result is the returned
  boolean (\<open>None\<close> when an exception left the function) and the context. An array is
  created in the cache before the scan, so it stays there also when the function returns
  \<open>false\<close>. With an inherited member as \<open>descriptors\<close> the scan does not run either (its
  bound is that of the descriptor), \<open>found\<close> stays \<open>undefined\<close> and \<open>descriptors.push(desc)\<close>
  throws, because the member has no method \<open>push\<close>.
\<close>

fun addDescriptor :: "env \<Rightarrow> installContext \<Rightarrow> ref \<Rightarrow> bool \<Rightarrow> bool option \<times> installContext" where
  "addDescriptor E ctx r overlay =
     (let desc = heap ctx ! r;
          packageId = name desc;
          ds = (case descriptors ctx packageId of None \<Rightarrow> [] | Some ds \<Rightarrow> ds);
          lim = desc_length desc
      in if inherits E ctx packageId then (None, ctx)
         else case addDescriptor_scan (heap ctx) ds (version desc) lim 0 False of
           None \<Rightarrow> (None, ctx\<lparr>descriptors := (descriptors ctx)(packageId \<mapsto> ds)\<rparr>)
         | Some (idx, fnd) \<Rightarrow>
             if fnd then
               (if \<not> overlay then (Some False, ctx\<lparr>descriptors := (descriptors ctx)(packageId \<mapsto> ds)\<rparr>)
                else (Some True, ctx\<lparr>descriptors := (descriptors ctx)(packageId \<mapsto> js_set ds idx r)\<rparr>))
             else (Some True, ctx\<lparr>descriptors := (descriptors ctx)(packageId \<mapsto> ds @ [r])\<rparr>))"

subsection \<open>Building descriptors\<close>

fun buildDescriptorFromPackage :: "env \<Rightarrow> package \<Rightarrow> descriptor" where
  "buildDescriptorFromPackage E pkg =
     \<lparr>name = pkg_name pkg,
      version = semver_normalize E (pkg_version pkg),
      dependencies = (case pkg_dependencies pkg of Some deps \<Rightarrow> deps | None \<Rightarrow> []),
      remote = None,
      info = None,
      path = Some (pkg_path pkg),
      location = LocLocal,
      prepareJob = None,
      installJob = None\<rparr>"

fun buildDescriptorFromRemote :: "env \<Rightarrow> packageInfo \<Rightarrow> remote \<Rightarrow> descriptor" where
  "buildDescriptorFromRemote E remotePackageInfo rem =
     \<lparr>name = info_name remotePackageInfo,
      version = semver_normalize E (info_version remotePackageInfo),
      dependencies = (case info_dependencies remotePackageInfo of Some deps \<Rightarrow> deps | None \<Rightarrow> []),
      remote = Some rem,
      info = Some remotePackageInfo,
      path = None,
      location = LocRemote,
      prepareJob = None,
      installJob = None\<rparr>"

text \<open>A new descriptor object: stored at the next free address.\<close>

fun alloc :: "installContext \<Rightarrow> descriptor \<Rightarrow> ref \<times> installContext" where
  "alloc ctx d = (length (heap ctx), ctx\<lparr>heap := heap ctx @ [d]\<rparr>)"

fun emit :: "event \<Rightarrow> installContext \<Rightarrow> installContext" where
  "emit e ctx = ctx\<lparr>trace := trace ctx @ [e]\<rparr>"

section \<open>Asynchronous control flow\<close>

text \<open>
  Every operation of the file reports through a callback \<open>done(err, value)\<close>. The embedding
  runs the schedule in which each collaborator (remote, loader, destination) answers before
  it returns, so an operation's callback has been called when the operation returns, unless
  it waits for a job that is still in flight. The result of an operation is what became of
  its callback:
  \<^item> \<open>Cb err value\<close>: called with these arguments;
  \<^item> \<open>Pending\<close>: not called, the operation waits for a job in flight;
  \<^item> \<open>Threw\<close>: an exception left the operation and unwinds the callers;
  \<^item> \<open>OutOfFuel\<close>: the recursion bound of the embedding was reached.
\<close>

datatype 'a result = OutOfFuel | Threw | Pending | Cb "string option" 'a

fun aborted :: "'a result \<Rightarrow> bool" where
  "aborted OutOfFuel = True"
| "aborted Threw = True"
| "aborted _ = False"

text \<open>
  Modelled from the spec: \<open>CORE.once\<close> of \<open>private/core\<close>, which is not among the sources.
  The spec: it "wraps an asynchronous operation so it runs at most one time; any call while
  it is pending attaches to the same in-flight outcome; any call after completion returns
  the cached outcome without re-executing the operation". \<open>once_call\<close> is what a call of the
  job does, given the job's state; \<open>once_done\<close> is the job's state after its operation ran.
\<close>

datatype once_action = Execute | Attach | Replay "string option"

fun once_call :: "job option \<Rightarrow> once_action" where
  "once_call None = Execute"
| "once_call (Some Running) = Attach"
| "once_call (Some (Finished err)) = Replay err"

fun once_done :: "'a result \<Rightarrow> job" where
  "once_done (Cb err x) = Finished err"
| "once_done _ = Running"

text \<open>
  Modelled from the spec: \<open>CORE.iter.parallel\<close>, not among the sources. The spec: it
  "launches worker for every item", "completes when every item's worker has completed" and
  "reports success only if none failed", the failure being the "first error encountered".
  \<open>parallel_join\<close> joins the outcome of one worker with the outcome of the workers after it.
\<close>

fun parallel_join :: "unit result \<Rightarrow> unit result \<Rightarrow> unit result" where
  "parallel_join (Cb e1 u) (Cb e2 w) = Cb (if truthy e1 then e1 else e2) ()"
| "parallel_join OutOfFuel r = OutOfFuel"
| "parallel_join Threw r = Threw"
| "parallel_join r OutOfFuel = OutOfFuel"
| "parallel_join r Threw = Threw"
| "parallel_join Pending (Cb e2 w) = Pending"
| "parallel_join r Pending = Pending"

section \<open>Preparing\<close>

text \<open>
  The descriptor has no property \<open>packageId\<close> (its package id is in \<open>name\<close>), so
  \<open>desc.packageId\<close> is \<open>undefined\<close>, which string concatenation renders as the text
  "undefined".
\<close>

fun desc_packageId :: "descriptor \<Rightarrow> string option" where
  "desc_packageId d = None"

fun js_string :: "string option \<Rightarrow> string" where
  "js_string None = ''undefined''"
| "js_string (Some s) = s"

text \<open>The operation that \<open>prepare\<close> wraps in \<open>CORE.once\<close>, for the descriptor object at \<open>r\<close>.\<close>

fun prepare_body :: "env \<Rightarrow> ref \<Rightarrow> installContext \<Rightarrow> unit result \<times> installContext" where
  "prepare_body E r ctx =
     (let desc = heap ctx ! r in
      if truthy (path desc) then (Cb None (), ctx)
      else case remote desc of
        None \<Rightarrow> (Cb (Some (''internal error: missing remote '' @ inspect E desc)) (), ctx)
      | Some rem \<Rightarrow>
          (case remote_fetch rem (info desc) of (err, p) \<Rightarrow>
             let ctx1 = emit (EvFetch (remote_url rem) (info desc)) ctx;
                 err1 = (if \<not> truthy err \<and> \<not> truthy p
                         then Some (''Could not fetch '' @ js_string (desc_packageId desc)
                                    @ '' ('' @ version desc @ '')'')
                         else err)
             in if truthy err1 then (Cb err1 (), ctx1)
                else (Cb None (), ctx1\<lparr>heap := (heap ctx1)[r := desc\<lparr>path := p\<rparr>]\<rparr>)))"

fun set_prepareJob :: "ref \<Rightarrow> job \<Rightarrow> installContext \<Rightarrow> installContext" where
  "set_prepareJob r j ctx = ctx\<lparr>heap := (heap ctx)[r := (heap ctx ! r)\<lparr>prepareJob := Some j\<rparr>]\<rparr>"

fun prepare :: "env \<Rightarrow> ref \<Rightarrow> installContext \<Rightarrow> unit result \<times> installContext" where
  "prepare E r ctx =
     (case once_call (prepareJob (heap ctx ! r)) of
        Attach \<Rightarrow> (Pending, ctx)
      | Replay err \<Rightarrow> (Cb err (), ctx)
      | Execute \<Rightarrow>
          (case prepare_body E r (set_prepareJob r Running ctx) of (res, ctx1) \<Rightarrow>
             (res, set_prepareJob r (once_done res) ctx1)))"

section \<open>Resolving\<close>

subsection \<open>loadDescriptor\<close>

text \<open>
  Modelled from the spec: \<open>CORE.async\<close>, not among the sources. The spec: it "runs a function
  that may fail synchronously and converts a thrown failure into a reported error". The
  wrapped \<open>require.packageFor\<close> so answers \<open>(err, undefined)\<close> when it throws \<open>err\<close> and
  \<open>(null, pkg)\<close> otherwise.
\<close>

fun loadPackage :: "env \<Rightarrow> string option \<Rightarrow> string option \<times> package option" where
  "loadPackage E p = (case packageFor E p of Inl err \<Rightarrow> (Some err, None) | Inr pkg \<Rightarrow> (None, pkg))"

text \<open>
  \<open>loadDescriptor(path, done)\<close>. When the loader reports neither an error nor a package,
  \<open>buildDescriptorFromPackage\<close> reads a property of \<open>undefined\<close> and throws. The boolean
  that \<open>addDescriptor\<close> returns is dropped, as in the source; an exception of
  \<open>addDescriptor\<close> leaves the callback.
\<close>

fun loadDescriptor :: "env \<Rightarrow> string \<Rightarrow> installContext \<Rightarrow> lookup result \<times> installContext" where
  "loadDescriptor E p ctx =
     (let p1 = path_normalize E p;
          ctx1 = emit (EvLoad (Some p1)) ctx;
          loaded = loadPackage E (Some p1);
          err = fst loaded
      in if truthy err then (Cb err Undefined, ctx1)
         else (case snd loaded of
           None \<Rightarrow> (Threw, ctx1)
         | Some pkg \<Rightarrow>
             (case alloc ctx1 (buildDescriptorFromPackage E pkg) of (ret, ctx2) \<Rightarrow>
                (case addDescriptor E ctx2 ret True of (added, ctx3) \<Rightarrow>
                   if added = None then (Threw, ctx3)
                   else (Cb None (Found ret), ctx3)))))"

subsection \<open>findDescriptor\<close>

text \<open>
  \<open>response.forEach(..)\<close>: every listed package becomes a new descriptor object, is added to
  the cache without overlay and is prepared with the callback \<open>CORE.noop\<close>, which drops the
  outcome. The boolean of the result tells whether an exception of \<open>addDescriptor\<close> left the
  loop.
\<close>

fun findDescriptor_merge ::
  "env \<Rightarrow> remote \<Rightarrow> packageInfo list \<Rightarrow> installContext \<Rightarrow> bool \<times> installContext" where
  "findDescriptor_merge E rem [] ctx = (False, ctx)"
| "findDescriptor_merge E rem (packageInfo # rest) ctx =
     (case alloc ctx (buildDescriptorFromRemote E packageInfo rem) of (desc, ctx1) \<Rightarrow>
        (case addDescriptor E ctx1 desc False of (added, ctx2) \<Rightarrow>
           if added = None then (True, ctx2)
           else findDescriptor_merge E rem rest (snd (prepare E desc ctx2))))"

text \<open>
  Modelled from the spec: \<open>CORE.iter.find\<close>, not among the sources. The spec of the resolver:
  "iterate configured remotes in priority order, sequentially (not in parallel - search stops
  at the first satisfying remote)". The function below is \<open>CORE.iter.find\<close> over the remotes
  with the callback of the source inlined: the remote is asked for its list; an error is
  logged and counts as not found, as does a missing response; otherwise the response is
  merged and the cache is asked again, and the scan stops when it has an answer. \<open>ret\<close> is
  the variable of \<open>findDescriptor\<close> that the callback assigns. An exception in the callback
  (of \<open>addDescriptor\<close> or of \<open>descriptorFor\<close>) ends the scan with the result \<open>TypeError\<close>.
\<close>

fun findDescriptor_scan ::
  "env \<Rightarrow> string \<Rightarrow> string option \<Rightarrow> bool \<Rightarrow> listOpts \<Rightarrow> remote list \<Rightarrow> lookup \<Rightarrow> installContext
    \<Rightarrow> lookup \<times> installContext" where
  "findDescriptor_scan E packageId v exact opts [] ret ctx = (ret, ctx)"
| "findDescriptor_scan E packageId v exact opts (rem # rest) ret ctx =
     (let ctx1 = emit (EvList (remote_url rem) opts) ctx in
      case remote_list rem opts of (err, response) \<Rightarrow>
        let ctx2 = (if truthy err then emit (EvWarn (''Warning: '' @ js_string err)) ctx1 else ctx1) in
        case response of
          None \<Rightarrow> findDescriptor_scan E packageId v exact opts rest ret ctx2
        | Some infos \<Rightarrow>
            if truthy err then findDescriptor_scan E packageId v exact opts rest ret ctx2
            else
              (case findDescriptor_merge E rem infos ctx2 of (threw, ctx3) \<Rightarrow>
                 (let ret1 = (if threw then TypeError else descriptorFor E ctx3 packageId v exact)
                  in if found ret1 \<or> ret1 = TypeError then (ret1, ctx3)
                     else findDescriptor_scan E packageId v exact opts rest ret1 ctx3)))"

text \<open>
  \<open>findDescriptor(packageId, version, exact, done)\<close>. \<open>exact = null\<close> is the boolean \<open>False\<close>:
  only its truthiness is read afterwards. An exception of the first \<open>descriptorFor\<close>, or
  one in the scan, leaves the function: \<open>done\<close> is not called.
\<close>

fun findDescriptor ::
  "env \<Rightarrow> string \<Rightarrow> string option \<Rightarrow> bool \<Rightarrow> installContext \<Rightarrow> lookup result \<times> installContext" where
  "findDescriptor E packageId v exact ctx =
     (let ret = descriptorFor E ctx packageId v exact in
      if ret = TypeError then (Threw, ctx)
      else if found ret then (Cb None ret, ctx)
      else
        (let exact1 = (if falsy v \<or> \<not> exact then False else exact);
             opts = \<lparr>opt_name = packageId,
                     opt_version = v,
                     opt_exact = (if exact1 then ''true'' else ''false''),
                     opt_dependencies = False\<rparr>
         in case findDescriptor_scan E packageId v exact1 opts (remotes ctx) ret ctx of
              (ret1, ctx1) \<Rightarrow> if ret1 = TypeError then (Threw, ctx1) else (Cb None ret1, ctx1)))"

section \<open>Installing\<close>

text \<open>\<open>(packageId[0]==='.') || (packageId.indexOf('/')>=0)\<close>\<close>

fun looks_like_path :: "string \<Rightarrow> bool" where
  "looks_like_path packageId =
     ((case packageId of [] \<Rightarrow> False | c # cs \<Rightarrow> c = CHR ''.'') \<or> CHR ''/'' \<in> set packageId)"

text \<open>The first step of the chain in \<open>install\<close>: the descriptor for the argument.\<close>

fun install_resolve ::
  "env \<Rightarrow> string \<Rightarrow> string option \<Rightarrow> bool \<Rightarrow> installContext \<Rightarrow> lookup result \<times> installContext" where
  "install_resolve E packageId v exact ctx =
     (if looks_like_path packageId then loadDescriptor E packageId ctx
      else findDescriptor E packageId v exact ctx)"

text \<open>
  The second step of the chain inside the install job: load the package at \<open>desc.path\<close>, hand
  it to the destination, and ask the remote (if any) to clean up. \<open>!err & !pkg\<close> is a bitwise
  conjunction of two booleans, truthy exactly when both hold. \<open>CORE.err(done)\<close> passes on the
  error of the cleanup.
\<close>

fun install_package :: "env \<Rightarrow> string \<Rightarrow> ref \<Rightarrow> installContext \<Rightarrow> unit result \<times> installContext" where
  "install_package E packageId r ctx =
     (let desc = heap ctx ! r;
          ctx1 = emit (EvLoad (path desc)) ctx;
          loaded = loadPackage E (path desc);
          err = fst loaded;
          pkg = snd loaded;
          err1 = (if \<not> truthy err \<and> pkg = None then Some (packageId @ '' is invalid'') else err)
      in if truthy err1 then (Cb err1 (), ctx1)
         else (case pkg of
           None \<Rightarrow> (Threw, ctx1)
         | Some pk \<Rightarrow>
             (let ctx2 = emit (EvInstall r pk) ctx1;
                  err2 = source ctx pk
              in if truthy err2 then (Cb err2 (), ctx2)
                 else (case remote desc of
                   Some rem \<Rightarrow>
                     (Cb (remote_cleanup rem (path desc)) (),
                      emit (EvCleanup (remote_url rem) (path desc)) ctx2)
                 | None \<Rightarrow> (Cb None (), ctx2)))))"

fun set_installJob :: "ref \<Rightarrow> job \<Rightarrow> installContext \<Rightarrow> installContext" where
  "set_installJob r j ctx = ctx\<lparr>heap := (heap ctx)[r := (heap ctx ! r)\<lparr>installJob := Some j\<rparr>]\<rparr>"

text \<open>
  The fourth argument of \<open>install\<close>: a boolean, or the callback when the caller passes four
  arguments (\<open>'function' === typeof force\<close>).
\<close>

datatype forceArg = ForceBool bool | ForceCallback

type_synonym request = "string \<times> string option \<times> bool \<times> forceArg"

text \<open>
  Modelled from the spec: \<open>CORE.iter.chain\<close>, not among the sources. The spec: it "executes
  an ordered sequence of asynchronous steps, each receiving the previous step's result;
  aborts and reports immediately on the first failure, skipping remaining steps".
  \<open>chain_continues\<close> tells whether the chain goes on after a step with this result.
\<close>

fun chain_continues :: "'a result \<Rightarrow> bool" where
  "chain_continues (Cb err x) = (\<not> truthy err)"
| "chain_continues _ = False"

fun chain_abort :: "'a result \<Rightarrow> unit result" where
  "chain_abort (Cb err x) = Cb err ()"
| "chain_abort Pending = Pending"
| "chain_abort Threw = Threw"
| "chain_abort OutOfFuel = OutOfFuel"

text \<open>
  The second step of the chain in \<open>install\<close>, up to the call of the job's operation: without
  a descriptor the callback gets "not found"; a job in flight is waited for; a finished job
  answers at once; otherwise the job is created and its operation runs (\<open>RunJob\<close>).
\<close>

datatype dispatch = Answer "unit result" | RunJob ref

fun install_dispatch :: "string \<Rightarrow> lookup \<Rightarrow> installContext \<Rightarrow> dispatch" where
  "install_dispatch packageId (Found r) ctx =
     (case once_call (installJob (heap ctx ! r)) of
        Attach \<Rightarrow> Answer Pending
      | Replay err \<Rightarrow> Answer (Cb err ())
      | Execute \<Rightarrow> RunJob r)"
| "install_dispatch packageId Null ctx = Answer (Cb (Some (packageId @ '' not found'')) ())"
| "install_dispatch packageId Undefined ctx = Answer (Cb (Some (packageId @ '' not found'')) ())"
| "install_dispatch packageId TypeError ctx = Answer Threw"

fun resolved :: "lookup result \<Rightarrow> lookup" where
  "resolved (Cb err desc) = desc"
| "resolved _ = Undefined"

text \<open>
  \<open>install\<close>, the operation of its install job (\<open>install_job\<close>), \<open>installDependencies\<close> and the
  fan-out \<open>CORE.iter.parallel(items, worker)\<close> whose worker calls \<open>install\<close> on one request.
  The first argument bounds the depth of the recursion through dependencies.

  \<open>dependencies\<close> lists the own enumerable properties of \<open>desc.dependencies\<close>, which the loop
  \<open>for(var packageId in desc.dependencies)\<close> visits. The loop calls
  \<open>desc.dependencies.hasOwnProperty(packageId)\<close>: a dependency on a package named
  \<open>hasOwnProperty\<close> shadows the method with its version string, and the call throws in the
  first turn.
\<close>

function (sequential) install ::
    "nat \<Rightarrow> env \<Rightarrow> string \<Rightarrow> string option \<Rightarrow> bool \<Rightarrow> forceArg \<Rightarrow> installContext
      \<Rightarrow> unit result \<times> installContext"
  and install_job ::
    "nat \<Rightarrow> env \<Rightarrow> string \<Rightarrow> ref \<Rightarrow> installContext \<Rightarrow> unit result \<times> installContext"
  and installDependencies ::
    "nat \<Rightarrow> env \<Rightarrow> ref \<Rightarrow> installContext \<Rightarrow> unit result \<times> installContext"
  and install_parallel ::
    "nat \<Rightarrow> env \<Rightarrow> request list \<Rightarrow> installContext \<Rightarrow> unit result \<times> installContext" where
  "install 0 E packageId v exact force ctx = (OutOfFuel, ctx)"
| "install (Suc n) E packageId v exact force ctx =
     (let force1 = (case force of ForceCallback \<Rightarrow> False | ForceBool b \<Rightarrow> b);
          found_ctx = install_resolve E packageId v exact ctx;
          ctx1 = snd found_ctx
      in if chain_continues (fst found_ctx) then
           (case install_dispatch packageId (resolved (fst found_ctx)) ctx1 of
              Answer res \<Rightarrow> (res, ctx1)
            | RunJob r \<Rightarrow>
                (let ran = install_job n E packageId r (emit (EvJob r) (set_installJob r Running ctx1))
                 in (fst ran, set_installJob r (once_done (fst ran)) (snd ran))))
         else (chain_abort (fst found_ctx), ctx1))"
| "install_job n E packageId r ctx =
     (let prepared = prepare E r ctx in
      if chain_continues (fst prepared) then
        (let deps = installDependencies n E r (snd prepared) in
         if chain_continues (fst deps) then install_package E packageId r (snd deps)
         else deps)
      else prepared)"
| "installDependencies n E r ctx =
     (let desc = heap ctx ! r;
          includeDeps = includeDependencies ctx;
          ctx1 = (if includeDeps = None
                  then ctx\<lparr>includeDependencies := Some (location desc = LocRemote)\<rparr>
                  else ctx)
      in if includeDeps \<noteq> Some True then (Cb None (), ctx1)
         else if ''hasOwnProperty'' \<in> set (map fst (dependencies desc)) then (Threw, ctx1)
         else install_parallel n E
                (map (\<lambda>(packageId, v). (packageId, Some v, False, ForceBool False)) (dependencies desc)) ctx1)"
| "install_parallel n E [] ctx = (Cb None (), ctx)"
| "install_parallel n E ((packageId, v, exact, force) # rest) ctx =
     (let first = install n E packageId v exact force ctx in
      if aborted (fst first) then first
      else (let others = install_parallel n E rest (snd first)
            in (parallel_join (fst first) (fst others), snd others)))"
  by pat_completeness auto
termination
proof (relation "inv_image (less_than <*lex*> less_than <*lex*> less_than)
    (\<lambda>x. case x of
       Inl (Inl (n, E, packageId, v, exact, force, ctx)) \<Rightarrow> (n, 0::nat, 0::nat)
     | Inl (Inr (n, E, packageId, r, ctx)) \<Rightarrow> (n, 3, 0)
     | Inr (Inl (n, E, r, ctx)) \<Rightarrow> (n, 2, 0)
     | Inr (Inr (n, E, reqs, ctx)) \<Rightarrow> (n, 1, length reqs))")
  show "wf (inv_image (less_than <*lex*> less_than <*lex*> less_than)
    (\<lambda>x. case x of
       Inl (Inl (n, E, packageId, v, exact, force, ctx)) \<Rightarrow> (n, 0::nat, 0::nat)
     | Inl (Inr (n, E, packageId, r, ctx)) \<Rightarrow> (n, 3, 0)
     | Inr (Inl (n, E, r, ctx)) \<Rightarrow> (n, 2, 0)
     | Inr (Inr (n, E, reqs, ctx)) \<Rightarrow> (n, 1, length reqs)))"
    by (intro wf_inv_image wf_lex_prod wf_less_than)
qed simp_all

section \<open>The command\<close>

text \<open>
  What \<open>collectState\<close> gathers from the command line: the option parser \<open>opts\<close> is external,
  so \<open>invoke\<close> is modelled from the collected state on.
\<close>

record state =
  st_dependencies :: "bool option"
  st_version :: "string option"
  st_remote :: "string option"
  st_packageIds :: "string list option"

text \<open>An element of \<open>require.loader.sources\<close>.\<close>

record installSource =
  acceptsInstalls :: bool
  source_install :: "package \<Rightarrow> string option"

text \<open>The module \<open>remote\<close> (\<open>REMOTE\<close>), external: its answers are parameters.\<close>

record registry =
  registry_normalize :: "string \<Rightarrow> string"
  registry_open :: "string \<Rightarrow> string option \<times> remote option"
  registry_openRemote :: "string \<Rightarrow> string option \<times> remote"
  registry_remotes :: "string option \<times> remote list"

text \<open>\<open>sources.forEach(function(cur) { if (!source && cur.acceptsInstalls) source = cur; })\<close>\<close>

fun invoke_source :: "installSource list \<Rightarrow> installSource option \<Rightarrow> installSource option" where
  "invoke_source [] src = src"
| "invoke_source (cur # rest) src =
     invoke_source rest (case src of None \<Rightarrow> (if acceptsInstalls cur then Some cur else None) | Some s \<Rightarrow> Some s)"

text \<open>The first step of the chain in \<open>invoke\<close>: the remotes to search.\<close>

fun invoke_remotes :: "registry \<Rightarrow> state \<Rightarrow> string option \<times> remote list" where
  "invoke_remotes R st =
     (if truthy (st_remote st) then
        (let remoteUrl = registry_normalize R (js_string (st_remote st));
             opened = registry_open R remoteUrl
         in if truthy (fst opened) then (fst opened, [])
            else (case snd opened of
              Some rm \<Rightarrow> (None, [rm])
            | None \<Rightarrow>
                (let opened1 = registry_openRemote R remoteUrl
                 in if truthy (fst opened1) then (fst opened1, [])
                    else (None, [snd opened1]))))
      else registry_remotes R)"

text \<open>\<open>new InstallContext(source, remotes, state.dependencies)\<close>\<close>

fun init :: "(package \<Rightarrow> string option) \<Rightarrow> remote list \<Rightarrow> bool option \<Rightarrow> installContext" where
  "init src rems deps =
     \<lparr>source = src, remotes = rems, includeDependencies = deps,
      descriptors = Map.empty, heap = [], trace = []\<rparr>"

text \<open>The callback \<open>function(err) { return done(err); }\<close> of the chain, if the chain calls it.\<close>

fun invoke_done :: "'a result \<Rightarrow> event list" where
  "invoke_done (Cb err x) = [EvDone err]"
| "invoke_done _ = []"

text \<open>
  \<open>exports.invoke\<close>, as the events of the run. Modelled from the spec: \<open>Cmds.fail(msg, done)\<close>
  of \<open>commands\<close>, not among the sources, reports the failure message to \<open>done\<close>. In the
  schedule of the embedding the chain has called back (or is stuck) when the last statement
  \<open>return done()\<close> runs; with collaborators that answer later the order of the two calls is
  the other way round. An exception in the chain leaves \<open>invoke\<close> before the last statement:
  then \<open>done\<close> is not called at all, and the events are those up to the exception (as they
  are when the bound on the depth is reached).
\<close>

fun invoke :: "nat \<Rightarrow> env \<Rightarrow> registry \<Rightarrow> installSource list \<Rightarrow> state \<Rightarrow> event list" where
  "invoke n E R sources st =
     (let packageIds = (case st_packageIds st of None \<Rightarrow> [] | Some ids \<Rightarrow> ids) in
      if packageIds = [] then [EvDone (Some ''You must name at least one package'')]
      else if truthy (st_version st) \<and> length packageIds \<noteq> 1
      then [EvDone (Some ''--version switch can only be used with one package name'')]
      else (case invoke_source sources None of
        None \<Rightarrow> [EvDone (Some ''Cannot find install location'')]
      | Some src \<Rightarrow>
          (case invoke_remotes R st of (err, rems) \<Rightarrow>
             if truthy err then [EvDone err, EvDone None]
             else
               (let ran = install_parallel n E
                            (map (\<lambda>packageId. (packageId, st_version st, True, ForceCallback)) packageIds)
                            (init (source_install src) rems (st_dependencies st))
                in if aborted (fst ran) then trace (snd ran)
                   else trace (snd ran) @ invoke_done (fst ran) @ [EvDone None]))))"

section \<open>Assumptions on the version utility and derived notions\<close>

text \<open>
  \<open>SEMVER.compare\<close> is consumed as a trusted utility. What the selection needs of it is that
  it is the comparison of a total preorder: the sign flips with the arguments, and "not
  greater" is transitive.
\<close>

definition semver_order :: "env \<Rightarrow> bool" where
  "semver_order E \<longleftrightarrow>
     (\<forall>a b. (semver_compare E a b < 0) = (0 < semver_compare E b a)) \<and>
     (\<forall>a b c. semver_compare E a b \<le> 0 \<longrightarrow> semver_compare E b c \<le> 0 \<longrightarrow> semver_compare E a c \<le> 0)"

text \<open>
  A cached descriptor qualifies for a request when one of the two branches of the loop of
  \<open>descriptorFor\<close> would pick it: the tests of the source, for one element.
\<close>

fun qualifies :: "env \<Rightarrow> string option \<Rightarrow> bool \<Rightarrow> descriptor \<Rightarrow> bool" where
  "qualifies E v exact d =
     (falsy v \<or> (\<not> exact \<and> (case v of Some s \<Rightarrow> semver_compatible E s (version d) | None \<Rightarrow> False))
      \<or> Some (version d) = v)"



text \<open>The calls of \<open>remote.list\<close> in a trace, in order: the remote's url and the query.\<close>

fun list_calls :: "event list \<Rightarrow> (string \<times> listOpts) list" where
  "list_calls [] = []"
| "list_calls (EvList url opts # es) = (url, opts) # list_calls es"
| "list_calls (e # es) = list_calls es"

text \<open>
  Counting in a trace: how often the operation of the install job of the descriptor object
  \<open>r\<close> was started, and how often the destination was handed a package for it.
\<close>

fun is_install :: "ref \<Rightarrow> event \<Rightarrow> bool" where
  "is_install r (EvInstall r' pkg) = (r' = r)"
| "is_install r e = False"

fun job_runs :: "ref \<Rightarrow> event list \<Rightarrow> nat" where
  "job_runs r tr = count_list tr (EvJob r)"

fun dest_installs :: "ref \<Rightarrow> event list \<Rightarrow> nat" where
  "dest_installs r tr = length (filter (is_install r) tr)"

text \<open>The install job of an object, \<open>None\<close> also for an address that is not in use.\<close>

fun job_of :: "installContext \<Rightarrow> ref \<Rightarrow> job option" where
  "job_of ctx r = (if r < length (heap ctx) then installJob (heap ctx ! r) else None)"

text \<open>
  The invariant of a session. Every descriptor in the cache is an object of the store. An
  object without an install job has no start of its job in the trace, one with a job has
  exactly one; the destination was called for it at most once, and only if its job has
  finished.
\<close>

fun runs_expected :: "job option \<Rightarrow> nat" where
  "runs_expected None = 0"
| "runs_expected (Some j) = 1"

fun installs_allowed :: "job option \<Rightarrow> nat" where
  "installs_allowed (Some (Finished err)) = 1"
| "installs_allowed j = 0"

definition refs_ok :: "installContext \<Rightarrow> bool" where
  "refs_ok ctx \<longleftrightarrow>
     (\<forall>packageId ds. descriptors ctx packageId = Some ds \<longrightarrow> (\<forall>r\<in>set ds. r < length (heap ctx)))"

definition job_inv :: "installContext \<Rightarrow> bool" where
  "job_inv ctx \<longleftrightarrow>
     refs_ok ctx \<and>
     (\<forall>r. job_runs r (trace ctx) = runs_expected (job_of ctx r) \<and>
          dest_installs r (trace ctx) \<le> installs_allowed (job_of ctx r))"

text \<open>
  Two relations between a context and a later one: \<open>job_frozen\<close>, no install job that
  exists is changed; \<open>quiet_step\<close>, no install job is changed or created and no job start or
  destination call is added to the trace.
\<close>

definition job_frozen :: "installContext \<Rightarrow> installContext \<Rightarrow> bool" where
  "job_frozen ctx ctx' \<longleftrightarrow>
     length (heap ctx) \<le> length (heap ctx') \<and>
     (\<forall>r. job_of ctx r \<noteq> None \<longrightarrow> job_of ctx' r = job_of ctx r)"

definition quiet_step :: "installContext \<Rightarrow> installContext \<Rightarrow> bool" where
  "quiet_step ctx ctx' \<longleftrightarrow>
     length (heap ctx) \<le> length (heap ctx') \<and>
     (\<forall>r. job_of ctx' r = job_of ctx r) \<and>
     (\<forall>r. job_runs r (trace ctx') = job_runs r (trace ctx) \<and>
          dest_installs r (trace ctx') = dest_installs r (trace ctx)) \<and>
     (refs_ok ctx \<longrightarrow> refs_ok ctx')"

text \<open>
  Modelled from the spec: \<open>CORE.once\<close> under any interleaving of its callers with the
  completion of its operation, which the schedule of the embedding above cannot show. A job
  receives calls (each with the number of its callback) and the completion of its operation;
  the first call starts the operation, calls while it runs wait, the completion answers all
  that wait, and a call after the completion is answered at once with the stored outcome.
\<close>

record once_state =
  os_job :: "job option"
  os_runs :: nat
  os_waiting :: "nat list"
  os_answers :: "(nat \<times> string option) list"

datatype once_event = Call nat | Complete "string option"

fun once_step :: "once_state \<Rightarrow> once_event \<Rightarrow> once_state" where
  "once_step s (Call k) =
     (case once_call (os_job s) of
        Execute \<Rightarrow> s\<lparr>os_job := Some Running, os_runs := Suc (os_runs s), os_waiting := [k]\<rparr>
      | Attach \<Rightarrow> s\<lparr>os_waiting := os_waiting s @ [k]\<rparr>
      | Replay err \<Rightarrow> s\<lparr>os_answers := os_answers s @ [(k, err)]\<rparr>)"
| "once_step s (Complete err) =
     (case os_job s of
        Some Running \<Rightarrow>
          s\<lparr>os_job := Some (Finished err), os_waiting := [],
            os_answers := os_answers s @ map (\<lambda>k. (k, err)) (os_waiting s)\<rparr>
      | _ \<Rightarrow> s)"

definition once_init :: once_state where
  "once_init = \<lparr>os_job = None, os_runs = 0, os_waiting = [], os_answers = []\<rparr>"

fun calls :: "once_event list \<Rightarrow> nat list" where
  "calls [] = []"
| "calls (Call k # es) = k # calls es"
| "calls (Complete err # es) = calls es"

definition once_inv :: "once_event list \<Rightarrow> once_state \<Rightarrow> bool" where
  "once_inv es s \<longleftrightarrow>
     (case os_job s of
        None \<Rightarrow> os_runs s = 0 \<and> os_waiting s = [] \<and> os_answers s = [] \<and> calls es = []
      | Some Running \<Rightarrow> os_runs s = 1 \<and> os_answers s = [] \<and> os_waiting s = calls es \<and> calls es \<noteq> []
      | Some (Finished err) \<Rightarrow>
          os_runs s = 1 \<and> os_waiting s = [] \<and> os_answers s = map (\<lambda>k. (k, err)) (calls es))"

section \<open>Example objects\<close>

text \<open>
  A small world for the closed statements below: a comparison of versions by their length
  (enough to order \<open>1.0\<close> before \<open>1.0.1\<close>), a loader that knows the directories \<open>./foo\<close>,
  \<open>/tmp/bar\<close> and \<open>./toString\<close>, a
  remote that lists one package \<open>bar\<close>, a destination that accepts everything, and the
  members of \<open>Object.prototype\<close> of a current engine.
\<close>

definition example_env :: env where
  "example_env =
     \<lparr>semver_compatible = (\<lambda>req cand. take 1 req = take 1 cand \<and> length req \<le> length cand),
      semver_compare = (\<lambda>a b. int (length a) - int (length b)),
      semver_normalize = (\<lambda>v. v),
      packageFor = (\<lambda>p. if p = Some ''./foo''
                          then Inr (Some \<lparr>pkg_name = ''foo'', pkg_version = ''1.0'',
                                           pkg_dependencies = Some [(''bar'', ''1.0'')], pkg_path = ''./foo''\<rparr>)
                          else if p = Some ''/tmp/bar''
                          then Inr (Some \<lparr>pkg_name = ''bar'', pkg_version = ''1.0'',
                                           pkg_dependencies = None, pkg_path = ''/tmp/bar''\<rparr>)
                          else if p = Some ''./toString''
                          then Inr (Some \<lparr>pkg_name = ''toString'', pkg_version = ''1.0'',
                                           pkg_dependencies = None, pkg_path = ''./toString''\<rparr>)
                          else Inl ''no package''),
      path_normalize = (\<lambda>p. p),
      inspect = name,
      object_prototype = map_of
        [(''constructor'', InheritedFunction 1), (''toString'', InheritedFunction 0),
         (''toLocaleString'', InheritedFunction 0), (''valueOf'', InheritedFunction 0),
         (''hasOwnProperty'', InheritedFunction 1), (''isPrototypeOf'', InheritedFunction 1),
         (''propertyIsEnumerable'', InheritedFunction 1), (''__proto__'', InheritedObject),
         (''__defineGetter__'', InheritedFunction 2), (''__defineSetter__'', InheritedFunction 2),
         (''__lookupGetter__'', InheritedFunction 1), (''__lookupSetter__'', InheritedFunction 1)]\<rparr>"

definition foo_1_0 :: descriptor where
  "foo_1_0 =
     \<lparr>name = ''foo'', version = ''1.0'', dependencies = [], remote = None, info = None,
      path = Some ''./foo'', location = LocLocal, prepareJob = None, installJob = None\<rparr>"

definition foo_1_0_1 :: descriptor where
  "foo_1_0_1 = foo_1_0\<lparr>version := ''1.0.1''\<rparr>"

text \<open>A context whose cache holds \<open>foo\<close> in the versions \<open>1.0\<close> and \<open>1.0.1\<close>.\<close>

definition foo_cached :: installContext where
  "foo_cached =
     \<lparr>source = (\<lambda>pkg. None), remotes = [], includeDependencies = None,
      descriptors = [''foo'' \<mapsto> [0, 1]], heap = [foo_1_0, foo_1_0_1, foo_1_0], trace = []\<rparr>"

text \<open>
  A remote that lists the package \<open>bar\<close> (which depends on \<open>baz\<close>) and fetches it to
  \<open>/tmp/bar\<close>; a remote whose fetch fails; a remote whose fetch reports neither an error nor
  a path; and the context after \<open>bar\<close> was listed by a given remote.
\<close>

definition bar_info :: packageInfo where
  "bar_info = \<lparr>info_name = ''bar'', info_version = ''1.0'', info_dependencies = Some [(''baz'', ''1.0'')]\<rparr>"

definition example_remote :: remote where
  "example_remote =
     \<lparr>remote_url = ''http://one'',
      remote_list = (\<lambda>opts. if opt_name opts = ''bar'' then (None, Some [bar_info]) else (None, Some [])),
      remote_fetch = (\<lambda>i. (None, Some ''/tmp/bar'')),
      remote_cleanup = (\<lambda>p. None)\<rparr>"

definition failing_remote :: remote where
  "failing_remote = example_remote\<lparr>remote_url := ''http://two'', remote_fetch := (\<lambda>i. (Some ''timeout'', None))\<rparr>"


definition listed_by :: "remote \<Rightarrow> installContext" where
  "listed_by rem =
     \<lparr>source = (\<lambda>pkg. None), remotes = [rem], includeDependencies = None,
      descriptors = [''bar'' \<mapsto> [0]],
      heap = [buildDescriptorFromRemote example_env bar_info rem], trace = []\<rparr>"

text \<open>A fresh context with two remotes, the first of which lists \<open>bar\<close>.\<close>

definition two_remotes :: installContext where
  "two_remotes = init (\<lambda>pkg. None) [example_remote, failing_remote] None"

text \<open>
  A registry whose configured remote is \<open>example_remote\<close>, a destination that accepts
  installs, and the state of the command line \<open>install packageId\<close>.
\<close>

definition example_registry :: registry where
  "example_registry =
     \<lparr>registry_normalize = (\<lambda>u. u),
      registry_open = (\<lambda>u. (None, None)),
      registry_openRemote = (\<lambda>u. (None, example_remote)),
      registry_remotes = (None, [example_remote])\<rparr>"

definition example_source :: installSource where
  "example_source = \<lparr>acceptsInstalls = True, source_install = (\<lambda>pkg. None)\<rparr>"

definition request_for :: "string \<Rightarrow> state" where
  "request_for packageId =
     \<lparr>st_dependencies = None, st_version = None, st_remote = None, st_packageIds = Some [packageId]\<rparr>"

text \<open>
  A remote that lists a package \<open>loop\<close> depending on itself, and the context after \<open>bar\<close> was
  installed from the first of the two remotes.
\<close>

definition loop_remote :: remote where
  "loop_remote =
     \<lparr>remote_url = ''http://loop'',
      remote_list = (\<lambda>opts. (None, Some [\<lparr>info_name = ''loop'', info_version = ''1.0'',
                                            info_dependencies = Some [(''loop'', ''1.0'')]\<rparr>])),
      remote_fetch = (\<lambda>i. (None, Some ''/tmp/loop'')),
      remote_cleanup = (\<lambda>p. None)\<rparr>"

definition bar_installed :: installContext where
  "bar_installed = snd (install 3 example_env ''bar'' None True ForceCallback two_remotes)"

section \<open>Properties of the descriptor cache\<close>

text \<open>
  The scan of \<open>addDescriptor\<close> never finds anything, because its bound is \<open>undefined\<close>: the
  function always appends and returns \<open>true\<close>, whatever \<open>overlay\<close> is, unless the name of the
  descriptor is that of an inherited member, where it throws and leaves the cache as it is.
\<close>

lemma addDescriptor_scan_undefined: "addDescriptor_scan h ds v None 0 False = Some (0, False)"
  by simp

lemma addDescriptor_appends:
  "addDescriptor E ctx r overlay =
     (if inherits E ctx (name (heap ctx ! r)) then (None, ctx)
      else (Some True, ctx\<lparr>descriptors := (descriptors ctx)(name (heap ctx ! r) \<mapsto>
        (case descriptors ctx (name (heap ctx ! r)) of None \<Rightarrow> [] | Some ds \<Rightarrow> ds) @ [r])\<rparr>))"
  by (simp add: Let_def del: inherits.simps)


lemma inherits_iff:
  "inherits E ctx packageId \<longleftrightarrow> descriptors ctx packageId = None \<and> object_prototype E packageId \<noteq> None"
  by (simp split: option.splits)

lemma descriptorFor_own:
  "descriptors ctx packageId = Some ds \<Longrightarrow>
   descriptorFor E ctx packageId v exact =
     (case descriptorFor_loop E (heap ctx) v exact ds None of None \<Rightarrow> Undefined | Some r \<Rightarrow> Found r)"
  by simp

lemma descriptorFor_Found:
  "descriptorFor E ctx packageId v exact = Found r \<Longrightarrow>
   \<exists>ds. descriptors ctx packageId = Some ds \<and> descriptorFor_loop E (heap ctx) v exact ds None = Some r"
  by (cases "descriptors ctx packageId"; cases "object_prototype E packageId")
     (auto split: option.splits inherited.splits if_splits elim: descriptorFor_inherited.elims)

text \<open>
  Claim C2 (cache insertion never duplicates a name and version; with \<open>overlay = false\<close> an
  existing entry leaves the cache unchanged and the result is \<open>false\<close>). The code does not do
  this. In \<open>foo_cached\<close> the package \<open>foo\<close> is cached in version \<open>1.0\<close> (object 0). Adding a
  second descriptor of \<open>foo\<close> in version \<open>1.0\<close> (object 2) with \<open>overlay = false\<close> returns
  \<open>true\<close> and appends it: the cache then holds two descriptors for the one name and version.
\<close>

theorem addDescriptor_duplicates:
  "fst (addDescriptor example_env foo_cached 2 False) = Some True \<and>
   descriptors (snd (addDescriptor example_env foo_cached 2 False)) ''foo'' = Some [0, 1, 2] \<and>
   name (heap foo_cached ! 0) = name (heap foo_cached ! 2) \<and>
   version (heap foo_cached ! 0) = version (heap foo_cached ! 2)"
  by (simp add: foo_cached_def foo_1_0_def Let_def)

subsection \<open>Selection\<close>

lemma example_env_order: "semver_order example_env"
  by (simp add: semver_order_def example_env_def)

lemma descriptorFor_loop_max:
  assumes "semver_order E" "falsy v"
  shows "r \<in> A \<Longrightarrow> \<forall>x\<in>A. 0 \<le> semver_compare E (version (h ! r)) (version (h ! x)) \<Longrightarrow>
    \<exists>r'. descriptorFor_loop E h v exact ds (Some r) = Some r' \<and> r' \<in> A \<union> set ds \<and>
      (\<forall>x\<in>A \<union> set ds. 0 \<le> semver_compare E (version (h ! r')) (version (h ! x)))"
proof (induction ds arbitrary: r A)
  case Nil
  then show ?case by simp
next
  case (Cons cur ds)
  let ?c = "\<lambda>a b. semver_compare E (version (h ! a)) (version (h ! b))"
  have anti: "\<And>a b. (semver_compare E a b < 0) = (0 < semver_compare E b a)"
    and trans: "\<And>a b c. semver_compare E a b \<le> 0 \<Longrightarrow> semver_compare E b c \<le> 0 \<Longrightarrow> semver_compare E a c \<le> 0"
    using assms(1) unfolding semver_order_def by blast+
  show ?case
  proof (cases "?c r cur < 0")
    case True
    have step: "descriptorFor_step E h v exact (Some r) cur = Some cur"
      using True assms(2) by simp
    have "\<forall>x\<in>insert cur A. 0 \<le> ?c cur x"
    proof
      fix x assume "x \<in> insert cur A"
      then consider "x = cur" | "x \<in> A" by blast
      then show "0 \<le> ?c cur x"
      proof cases
        case 1
        then show ?thesis using anti[of "version (h ! cur)" "version (h ! cur)"] by auto
      next
        case 2
        then have "0 \<le> ?c r x" using Cons.prems by blast
        then have "?c x r \<le> 0" using anti[of "version (h ! r)" "version (h ! x)"] by auto
        moreover have "?c r cur \<le> 0" using True by simp
        ultimately have "?c x cur \<le> 0" using trans by blast
        then show ?thesis using anti[of "version (h ! cur)" "version (h ! x)"] by auto
      qed
    qed
    from Cons.IH[of cur "insert cur A", OF _ this]
    show ?thesis using step by auto
  next
    case False
    have step: "descriptorFor_step E h v exact (Some r) cur = Some r"
      using False assms(2) by simp
    have "\<forall>x\<in>insert cur A. 0 \<le> ?c r x"
      using False Cons.prems by auto
    from Cons.IH[of r "insert cur A", OF _ this] Cons.prems(1)
    show ?thesis using step by auto
  qed
qed

lemma descriptorFor_loop_highest:
  assumes "semver_order E" "falsy v" "ds \<noteq> []"
  shows "\<exists>r\<in>set ds. descriptorFor_loop E h v exact ds None = Some r \<and>
      (\<forall>x\<in>set ds. 0 \<le> semver_compare E (version (h ! r)) (version (h ! x)))"
proof (cases ds)
  case Nil
  then show ?thesis using assms(3) by simp
next
  case (Cons cur rest)
  have refl: "0 \<le> semver_compare E (version (h ! cur)) (version (h ! cur))"
    using assms(1) unfolding semver_order_def
    by (metis not_less order_less_imp_le)
  have first: "descriptorFor_step E h v exact None cur = Some cur"
    using assms(2) by simp
  from descriptorFor_loop_max[OF assms(1,2), of cur "{cur}" h exact rest] refl
  show ?thesis using Cons first by auto
qed

lemma descriptorFor_loop_exact:
  assumes "truthy v"
  shows "descriptorFor_loop E h v True ds ret = Some r \<Longrightarrow>
     ret = Some r \<or> (r \<in> set ds \<and> Some (version (h ! r)) = v)"
  using assms
proof (induction ds arbitrary: ret)
  case Nil
  then show ?case by simp
next
  case (Cons cur ds)
  have nf: "\<not> falsy v" using Cons.prems(2) by (cases v) auto
  from Cons.prems(1)
  have "descriptorFor_loop E h v True ds (descriptorFor_step E h v True ret cur) = Some r" by simp
  from Cons.IH[OF this Cons.prems(2)] show ?case
    using nf by (auto split: if_splits)
qed

lemma descriptorFor_loop_keeps:
  "ret \<noteq> None \<Longrightarrow> descriptorFor_loop E h v exact ds ret \<noteq> None"
  by (induction ds arbitrary: ret) (auto split: option.splits)

lemma descriptorFor_loop_finds:
  assumes "truthy v"
  shows "\<exists>x\<in>set ds. Some (version (h ! x)) = v \<Longrightarrow> descriptorFor_loop E h v True ds ret \<noteq> None"
proof (induction ds arbitrary: ret)
  case Nil
  then show ?case by simp
next
  case (Cons cur ds)
  have nf: "\<not> falsy v" using assms by (cases v) auto
  show ?case
  proof (cases "Some (version (h ! cur)) = v")
    case True
    then have "descriptorFor_step E h v True ret cur = Some cur" using nf by simp
    then show ?thesis using descriptorFor_loop_keeps[of "Some cur" E h v True ds] by simp
  next
    case False
    then have "\<exists>x\<in>set ds. Some (version (h ! x)) = v" using Cons.prems by auto
    from Cons.IH[OF this] show ?thesis by simp
  qed
qed

lemma descriptorFor_loop_none:
  "\<forall>x\<in>set ds. \<not> qualifies E v exact (h ! x) \<Longrightarrow> descriptorFor_loop E h v exact ds ret = ret"
  by (induction ds arbitrary: ret) auto

text \<open>
  What the selection does. For a package id with a non-empty array in the cache and no
  version constraint, the result is a cached descriptor of the id that no cached descriptor
  of the id exceeds in \<open>SEMVER.compare\<close>. With a constraint and \<open>exact = true\<close>, a returned
  descriptor is cached for the id and its version string equals the constraint, and one is
  returned whenever such a descriptor is cached. When nothing qualifies the result is
  \<open>null\<close> if the read of the cache gives nothing, and \<open>undefined\<close> if the id has an array.
\<close>

lemma descriptorFor_selects:
  "(semver_order E \<and> falsy v \<and> descriptors ctx packageId = Some ds \<and> ds \<noteq> [] \<longrightarrow>
      (\<exists>r\<in>set ds. descriptorFor E ctx packageId v exact = Found r \<and>
         (\<forall>x\<in>set ds. 0 \<le> semver_compare E (version (heap ctx ! r)) (version (heap ctx ! x))))) \<and>
   (truthy v \<and> descriptorFor E ctx packageId v True = Found r \<longrightarrow>
      Some (version (heap ctx ! r)) = v \<and> (\<exists>ds. descriptors ctx packageId = Some ds \<and> r \<in> set ds)) \<and>
   (truthy v \<and> descriptors ctx packageId = Some ds \<and> (\<exists>x\<in>set ds. Some (version (heap ctx ! x)) = v) \<longrightarrow>
      found (descriptorFor E ctx packageId v True)) \<and>
   (descriptors ctx packageId = None \<and> object_prototype E packageId = None \<longrightarrow>
      descriptorFor E ctx packageId v exact = Null) \<and>
   (descriptors ctx packageId = Some ds \<and> (\<forall>x\<in>set ds. \<not> qualifies E v exact (heap ctx ! x)) \<longrightarrow>
      descriptorFor E ctx packageId v exact = Undefined)"
proof (intro conjI impI)
  assume a: "semver_order E \<and> falsy v \<and> descriptors ctx packageId = Some ds \<and> ds \<noteq> []"
  with descriptorFor_loop_highest[of E v ds "heap ctx" exact]
  show "\<exists>r\<in>set ds. descriptorFor E ctx packageId v exact = Found r \<and>
         (\<forall>x\<in>set ds. 0 \<le> semver_compare E (version (heap ctx ! r)) (version (heap ctx ! x)))"
    by auto
next
  assume a: "truthy v \<and> descriptorFor E ctx packageId v True = Found r"
  with descriptorFor_Found[of E ctx packageId v True r]
  obtain ds' where ds': "descriptors ctx packageId = Some ds'"
    and l: "descriptorFor_loop E (heap ctx) v True ds' None = Some r"
    by blast
  from descriptorFor_loop_exact[OF _ l] a
  have "r \<in> set ds' \<and> Some (version (heap ctx ! r)) = v" by simp
  then show "Some (version (heap ctx ! r)) = v" by simp
  show "\<exists>ds. descriptors ctx packageId = Some ds \<and> r \<in> set ds"
    using ds' \<open>r \<in> set ds' \<and> Some (version (heap ctx ! r)) = v\<close> by simp
next
  assume a: "truthy v \<and> descriptors ctx packageId = Some ds \<and> (\<exists>x\<in>set ds. Some (version (heap ctx ! x)) = v)"
  with descriptorFor_loop_finds[of v ds "heap ctx" E None]
  show "found (descriptorFor E ctx packageId v True)"
    by (auto split: option.splits)
next
  assume "descriptors ctx packageId = None \<and> object_prototype E packageId = None"
  then show "descriptorFor E ctx packageId v exact = Null" by simp
next
  assume a: "descriptors ctx packageId = Some ds \<and> (\<forall>x\<in>set ds. \<not> qualifies E v exact (heap ctx ! x))"
  with descriptorFor_loop_none[of ds E v exact "heap ctx" None]
  show "descriptorFor E ctx packageId v exact = Undefined" by simp
qed

text \<open>
  Claim C5 (the selection \<open>descriptorFor\<close>; when no cached descriptor qualifies it
  returns a not-found value, \<open>null\<close>, rather than an error). The code does not do this.
  \<open>foo\<close> is cached in the versions \<open>1.0\<close> and \<open>1.0.1\<close> and neither qualifies for the exact
  request \<open>2.0\<close>: the result is \<open>undefined\<close>, not the \<open>null\<close> that the comment above the
  function promises and that the function returns when the id has no array. For the id
  \<open>constructor\<close>, of which nothing is cached, the same request ends in an exception, and
  without a version constraint the result is \<open>undefined\<close> again.
\<close>

theorem descriptorFor_undefined:
  "\<not> qualifies example_env (Some ''2.0'') True (heap foo_cached ! 0) \<and>
   \<not> qualifies example_env (Some ''2.0'') True (heap foo_cached ! 1) \<and>
   descriptorFor example_env foo_cached ''foo'' (Some ''2.0'') True = Undefined \<and>
   descriptorFor example_env foo_cached ''foo'' (Some ''2.0'') True \<noteq> Null \<and>
   descriptorFor example_env foo_cached ''bar'' (Some ''2.0'') True = Null \<and>
   descriptors foo_cached ''constructor'' = None \<and>
   descriptorFor example_env foo_cached ''constructor'' (Some ''2.0'') True = TypeError \<and>
   descriptorFor example_env foo_cached ''constructor'' None False = Undefined"
  by (simp add: foo_cached_def foo_1_0_def foo_1_0_1_def example_env_def)

section \<open>Properties of preparing\<close>




section \<open>Properties of resolving\<close>

text \<open>
  The helper lemmas: which calls of \<open>remote.list\<close> each step adds to the trace, that no step
  reads the field \<open>remotes\<close> of the context except through the list being scanned, and that a
  scan which has an answer after a prefix of the remotes never looks at the rest.
\<close>

lemma list_calls_append: "list_calls (xs @ ys) = list_calls xs @ list_calls ys"
  by (induction xs rule: list_calls.induct) auto

lemma prepare_list_calls: "list_calls (trace (snd (prepare E r ctx))) = list_calls (trace ctx)"
  by (auto simp: Let_def list_calls_append split: once_action.splits option.splits prod.splits)

lemma addDescriptor_trace: "trace (snd (addDescriptor E ctx r overlay)) = trace ctx"
  by (simp only: addDescriptor_appends) simp

lemma findDescriptor_merge_list_calls:
  "list_calls (trace (snd (findDescriptor_merge E rem infos ctx))) = list_calls (trace ctx)"
proof (induction infos arbitrary: ctx)
  case Nil
  then show ?case by simp
next
  case (Cons i infos)
  show ?case
    by (simp only: findDescriptor_merge.simps alloc.simps Let_def case_prod_beta fst_conv snd_conv Cons.IH
        prepare_list_calls addDescriptor_trace split: if_split) simp
qed

lemma findDescriptor_scan_list_calls:
  "\<exists>k\<le>length rems.
     list_calls (trace (snd (findDescriptor_scan E packageId v exact opts rems ret ctx))) =
       list_calls (trace ctx) @ map (\<lambda>rem. (remote_url rem, opts)) (take k rems) \<and>
     (k < length rems \<longrightarrow> found (fst (findDescriptor_scan E packageId v exact opts rems ret ctx)) \<or>
        fst (findDescriptor_scan E packageId v exact opts rems ret ctx) = TypeError)"
proof (induction rems arbitrary: ret ctx)
  case Nil
  then show ?case by simp
next
  case (Cons rem rest)
  let ?ctx1 = "emit (EvList (remote_url rem) opts) ctx"
  obtain err response where l: "remote_list rem opts = (err, response)" by (cases "remote_list rem opts")
  let ?ctx2 = "if truthy err then emit (EvWarn (''Warning: '' @ js_string err)) ?ctx1 else ?ctx1"
  have c2: "list_calls (trace ?ctx2) = list_calls (trace ctx) @ [(remote_url rem, opts)]"
    by (simp add: list_calls_append)
  show ?case
  proof (cases "response = None \<or> truthy err")
    case True
    then have eq: "findDescriptor_scan E packageId v exact opts (rem # rest) ret ctx =
        findDescriptor_scan E packageId v exact opts rest ret ?ctx2"
      using l by (auto simp: Let_def case_prod_beta split: option.splits)
    from Cons.IH[of ret ?ctx2] obtain k where k: "k \<le> length rest"
      "list_calls (trace (snd (findDescriptor_scan E packageId v exact opts rest ret ?ctx2))) =
         list_calls (trace ?ctx2) @ map (\<lambda>rem. (remote_url rem, opts)) (take k rest)"
      "k < length rest \<longrightarrow> found (fst (findDescriptor_scan E packageId v exact opts rest ret ?ctx2)) \<or>
         fst (findDescriptor_scan E packageId v exact opts rest ret ?ctx2) = TypeError"
      by blast
    show ?thesis
      by (rule exI[of _ "Suc k"]) (use k c2 eq in simp)
  next
    case False
    then obtain infos where r: "response = Some infos" and ne: "\<not> truthy err" by auto
    let ?merged = "findDescriptor_merge E rem infos ?ctx1"
    let ?ctx3 = "snd ?merged"
    let ?ret1 = "if fst ?merged then TypeError else descriptorFor E ?ctx3 packageId v exact"
    have c1: "list_calls (trace ?ctx1) = list_calls (trace ctx) @ [(remote_url rem, opts)]"
      by (simp add: list_calls_append)
    have c3: "list_calls (trace ?ctx3) = list_calls (trace ctx) @ [(remote_url rem, opts)]"
      using c1 by (simp only: findDescriptor_merge_list_calls)
    show ?thesis
    proof (cases "found ?ret1 \<or> ?ret1 = TypeError")
      case True
      have eq: "findDescriptor_scan E packageId v exact opts (rem # rest) ret ctx = (?ret1, ?ctx3)"
        using ne l r True
        by (auto simp add: Let_def case_prod_beta simp del: descriptorFor.simps emit.simps split: if_splits)
      show ?thesis
        by (rule exI[of _ "Suc 0"]) (use eq c3 True ne in \<open>simp del: descriptorFor.simps\<close>)
    next
      case nf: False
      have eq: "findDescriptor_scan E packageId v exact opts (rem # rest) ret ctx =
          findDescriptor_scan E packageId v exact opts rest ?ret1 ?ctx3"
        using ne l r nf
        by (auto simp add: Let_def case_prod_beta simp del: descriptorFor.simps emit.simps split: if_splits)
      from Cons.IH[of ?ret1 ?ctx3] obtain k where k: "k \<le> length rest"
        "list_calls (trace (snd (findDescriptor_scan E packageId v exact opts rest ?ret1 ?ctx3))) =
           list_calls (trace ?ctx3) @ map (\<lambda>rem. (remote_url rem, opts)) (take k rest)"
        "k < length rest \<longrightarrow> found (fst (findDescriptor_scan E packageId v exact opts rest ?ret1 ?ctx3)) \<or>
           fst (findDescriptor_scan E packageId v exact opts rest ?ret1 ?ctx3) = TypeError"
        by blast
      show ?thesis
        by (rule exI[of _ "Suc k"]) (use k c3 eq in \<open>simp del: descriptorFor.simps\<close>)
    qed
  qed
qed

lemma inherits_remotes: "inherits E (ctx\<lparr>remotes := rs\<rparr>) = inherits E ctx"
  by (intro ext) simp

lemma addDescriptor_remotes:
  "addDescriptor E (ctx\<lparr>remotes := rs\<rparr>) r overlay =
     (fst (addDescriptor E ctx r overlay), (snd (addDescriptor E ctx r overlay))\<lparr>remotes := rs\<rparr>)"
  by (simp only: addDescriptor_appends inherits_remotes) simp

lemma prepare_remotes:
  "prepare E r (ctx\<lparr>remotes := rs\<rparr>) =
     (fst (prepare E r ctx), (snd (prepare E r ctx))\<lparr>remotes := rs\<rparr>)"
  by (auto simp: Let_def case_prod_beta split: once_action.splits option.splits prod.splits)

lemma findDescriptor_merge_remotes:
  "findDescriptor_merge E rem infos (ctx\<lparr>remotes := rs\<rparr>) =
     (fst (findDescriptor_merge E rem infos ctx), (snd (findDescriptor_merge E rem infos ctx))\<lparr>remotes := rs\<rparr>)"
proof (induction infos arbitrary: ctx)
  case Nil
  then show ?case by simp
next
  case (Cons i infos)
  let ?d = "buildDescriptorFromRemote E i rem"
  have al: "alloc (ctx\<lparr>remotes := rs\<rparr>) ?d = (fst (alloc ctx ?d), (snd (alloc ctx ?d))\<lparr>remotes := rs\<rparr>)"
    by simp
  show ?case
    apply (simp only: findDescriptor_merge.simps Let_def case_prod_beta al fst_conv snd_conv addDescriptor_remotes
        prepare_remotes Cons.IH)
    apply (simp del: addDescriptor.simps prepare.simps buildDescriptorFromRemote.simps alloc.simps findDescriptor_merge.simps)
    done
qed

lemma descriptorFor_remotes: "descriptorFor E (ctx\<lparr>remotes := rs\<rparr>) = descriptorFor E ctx"
  by (intro ext) (simp split: option.splits)

lemma findDescriptor_scan_remotes:
  "findDescriptor_scan E packageId v exact opts rems ret (ctx\<lparr>remotes := rs\<rparr>) =
     (fst (findDescriptor_scan E packageId v exact opts rems ret ctx),
      (snd (findDescriptor_scan E packageId v exact opts rems ret ctx))\<lparr>remotes := rs\<rparr>)"
proof (induction rems arbitrary: ret ctx)
  case Nil
  then show ?case by simp
next
  case (Cons rem rest)
  have e: "\<And>ev c. emit ev (c\<lparr>remotes := rs\<rparr>) = (emit ev c)\<lparr>remotes := rs\<rparr>" by simp
  show ?case
    apply (simp only: findDescriptor_scan.simps Let_def case_prod_beta e)
    apply (cases "remote_list rem opts")
    apply (simp only: prod.case)
    apply (auto simp only: e Cons.IH findDescriptor_merge_remotes descriptorFor_remotes fst_conv snd_conv
        case_prod_beta split: option.splits if_splits)
    done
qed

lemma findDescriptor_scan_stops:
  "\<not> found ret \<Longrightarrow> found (fst (findDescriptor_scan E packageId v exact opts rs1 ret ctx)) \<Longrightarrow>
   findDescriptor_scan E packageId v exact opts (rs1 @ rs2) ret ctx =
     findDescriptor_scan E packageId v exact opts rs1 ret ctx"
proof (induction rs1 arbitrary: ret ctx)
  case Nil
  then show ?case by simp
next
  case (Cons rem rest)
  obtain err response where l: "remote_list rem opts = (err, response)" by (cases "remote_list rem opts")
  show ?case
    using Cons.prems Cons.IH l
    by (auto simp: Let_def case_prod_beta simp del: descriptorFor.simps split: option.splits if_splits)
qed

lemma findDescriptor_list_calls:
  "\<exists>k\<le>length (remotes ctx).
     list_calls (trace (snd (findDescriptor E packageId v exact ctx))) =
       list_calls (trace ctx) @
       map (\<lambda>rem. (remote_url rem,
              \<lparr>opt_name = packageId, opt_version = v,
               opt_exact = (if (if falsy v \<or> \<not> exact then False else exact) then ''true'' else ''false''),
               opt_dependencies = False\<rparr>)) (take k (remotes ctx)) \<and>
     (k < length (remotes ctx) \<longrightarrow> found (resolved (fst (findDescriptor E packageId v exact ctx))) \<or>
        fst (findDescriptor E packageId v exact ctx) = Threw)"
proof (cases "found (descriptorFor E ctx packageId v exact) \<or> descriptorFor E ctx packageId v exact = TypeError")
  case True
  then have "findDescriptor E packageId v exact ctx =
      (if descriptorFor E ctx packageId v exact = TypeError then Threw
       else Cb None (descriptorFor E ctx packageId v exact), ctx)"
    by (auto simp add: Let_def case_prod_beta simp del: descriptorFor.simps)
  then show ?thesis using True by (intro exI[of _ 0]) (auto simp del: descriptorFor.simps findDescriptor.simps)
next
  case False
  let ?exact1 = "if falsy v \<or> \<not> exact then False else exact"
  let ?opts = "\<lparr>opt_name = packageId, opt_version = v,
               opt_exact = (if ?exact1 then ''true'' else ''false''), opt_dependencies = False\<rparr>"
  let ?scan = "findDescriptor_scan E packageId v ?exact1 ?opts (remotes ctx) (descriptorFor E ctx packageId v exact) ctx"
  have eq: "findDescriptor E packageId v exact ctx =
      (if fst ?scan = TypeError then Threw else Cb None (fst ?scan), snd ?scan)"
    using False by (simp add: Let_def case_prod_beta del: descriptorFor.simps)
  from findDescriptor_scan_list_calls[of "remotes ctx" E packageId v ?exact1 ?opts
      "descriptorFor E ctx packageId v exact" ctx]
  show ?thesis unfolding eq by auto
qed

text \<open>
  Claim C6 (resolution scans the remotes sequentially, in priority order, and stops at the
  first satisfying source). When the cache satisfies the request, \<open>findDescriptor\<close> answers
  with the cached descriptor and leaves the context as it is: no remote is asked. Otherwise
  the remotes asked for their list are, in order, the first \<open>k\<close> of the configured remotes,
  and the scan stops before the end only with an answer, or with the exception that a
  package id or a listed name inherited from \<open>Object.prototype\<close> raises in the cache. When
  the cache has an answer after the results of a prefix \<open>rs1\<close> of the remotes were merged,
  the result and the trace are those of a context that has no further remotes: the remotes
  after \<open>rs1\<close> are not asked.
\<close>

theorem findDescriptor_sequential:
  "(found (descriptorFor E ctx packageId v exact) \<longrightarrow>
      findDescriptor E packageId v exact ctx = (Cb None (descriptorFor E ctx packageId v exact), ctx)) \<and>
   (\<exists>k\<le>length (remotes ctx).
      map fst (list_calls (trace (snd (findDescriptor E packageId v exact ctx)))) =
        map fst (list_calls (trace ctx)) @ map remote_url (take k (remotes ctx)) \<and>
      (k < length (remotes ctx) \<longrightarrow>
         found (resolved (fst (findDescriptor E packageId v exact ctx))) \<or>
         fst (findDescriptor E packageId v exact ctx) = Threw)) \<and>
   (remotes ctx = rs1 @ rs2 \<and>
    found (resolved (fst (findDescriptor E packageId v exact (ctx\<lparr>remotes := rs1\<rparr>)))) \<longrightarrow>
      fst (findDescriptor E packageId v exact ctx) =
        fst (findDescriptor E packageId v exact (ctx\<lparr>remotes := rs1\<rparr>)) \<and>
      trace (snd (findDescriptor E packageId v exact ctx)) =
        trace (snd (findDescriptor E packageId v exact (ctx\<lparr>remotes := rs1\<rparr>))))"
proof (intro conjI impI)
  assume f: "found (descriptorFor E ctx packageId v exact)"
  then have "descriptorFor E ctx packageId v exact \<noteq> TypeError" by auto
  with f show "findDescriptor E packageId v exact ctx = (Cb None (descriptorFor E ctx packageId v exact), ctx)"
    by (simp add: Let_def case_prod_beta del: descriptorFor.simps)
next
  from findDescriptor_list_calls[of ctx E packageId v exact]
  obtain k where k: "k \<le> length (remotes ctx)"
    "list_calls (trace (snd (findDescriptor E packageId v exact ctx))) =
       list_calls (trace ctx) @
       map (\<lambda>rem. (remote_url rem,
              \<lparr>opt_name = packageId, opt_version = v,
               opt_exact = (if (if falsy v \<or> \<not> exact then False else exact) then ''true'' else ''false''),
               opt_dependencies = False\<rparr>)) (take k (remotes ctx))"
    "k < length (remotes ctx) \<longrightarrow> found (resolved (fst (findDescriptor E packageId v exact ctx))) \<or>
        fst (findDescriptor E packageId v exact ctx) = Threw"
    by blast
  show "\<exists>k\<le>length (remotes ctx).
      map fst (list_calls (trace (snd (findDescriptor E packageId v exact ctx)))) =
        map fst (list_calls (trace ctx)) @ map remote_url (take k (remotes ctx)) \<and>
      (k < length (remotes ctx) \<longrightarrow>
         found (resolved (fst (findDescriptor E packageId v exact ctx))) \<or>
         fst (findDescriptor E packageId v exact ctx) = Threw)"
    by (rule exI[of _ k]) (simp add: k o_def del: findDescriptor.simps)
next
  assume a: "remotes ctx = rs1 @ rs2 \<and>
    found (resolved (fst (findDescriptor E packageId v exact (ctx\<lparr>remotes := rs1\<rparr>))))"
  let ?ret = "descriptorFor E ctx packageId v exact"
  let ?exact1 = "if falsy v \<or> \<not> exact then False else exact"
  let ?opts = "\<lparr>opt_name = packageId, opt_version = v,
               opt_exact = (if ?exact1 then ''true'' else ''false''), opt_dependencies = False\<rparr>"
  have both: "fst (findDescriptor E packageId v exact ctx) =
        fst (findDescriptor E packageId v exact (ctx\<lparr>remotes := rs1\<rparr>)) \<and>
      trace (snd (findDescriptor E packageId v exact ctx)) =
        trace (snd (findDescriptor E packageId v exact (ctx\<lparr>remotes := rs1\<rparr>)))"
  proof (cases "found ?ret \<or> ?ret = TypeError")
    case True
    then show ?thesis by (auto simp add: Let_def case_prod_beta descriptorFor_remotes simp del: descriptorFor.simps)
  next
    case False
    let ?s1 = "findDescriptor_scan E packageId v ?exact1 ?opts rs1 ?ret ctx"
    have short: "findDescriptor E packageId v exact (ctx\<lparr>remotes := rs1\<rparr>) =
        (if fst ?s1 = TypeError then Threw else Cb None (fst ?s1), (snd ?s1)\<lparr>remotes := rs1\<rparr>)"
      using False
      by (simp add: Let_def case_prod_beta descriptorFor_remotes findDescriptor_scan_remotes del: descriptorFor.simps)
    then have f1: "found (fst ?s1)" using a by (auto split: if_splits)
    then have nt: "fst ?s1 \<noteq> TypeError" by auto
    from False have nf: "\<not> found ?ret" by simp
    have long: "findDescriptor E packageId v exact ctx = (Cb None (fst ?s1), snd ?s1)"
      using False a nt findDescriptor_scan_stops[OF nf f1, of rs2]
      by (simp add: Let_def case_prod_beta del: descriptorFor.simps)
    show ?thesis unfolding short long using nt by simp
  qed
  from both show "fst (findDescriptor E packageId v exact ctx) =
        fst (findDescriptor E packageId v exact (ctx\<lparr>remotes := rs1\<rparr>))" by blast
  from both show "trace (snd (findDescriptor E packageId v exact ctx)) =
        trace (snd (findDescriptor E packageId v exact (ctx\<lparr>remotes := rs1\<rparr>)))" by blast
qed

theorem findDescriptor_sequential_witness:
  "remotes two_remotes = [example_remote] @ [failing_remote] \<and>
   fst (findDescriptor example_env ''bar'' None False (two_remotes\<lparr>remotes := [example_remote]\<rparr>)) = Cb None (Found 0) \<and>
   fst (findDescriptor example_env ''bar'' None False two_remotes) = Cb None (Found 0) \<and>
   map fst (list_calls (trace (snd (findDescriptor example_env ''bar'' None False two_remotes)))) = [''http://one''] \<and>
   found (descriptorFor example_env foo_cached ''foo'' None False) \<and>
   findDescriptor example_env ''foo'' None False foo_cached = (Cb None (Found 1), foo_cached) \<and>
   findDescriptor example_env ''constructor'' (Some ''1.0'') False two_remotes = (Threw, two_remotes)"
  using findDescriptor_sequential[of example_env two_remotes "''bar''" None False "[example_remote]" "[failing_remote]"]
    findDescriptor_sequential[of example_env foo_cached "''foo''" None False "[]" "[]"]
    findDescriptor_sequential[of example_env two_remotes "''constructor''" "Some ''1.0''" False "[]" "[]"]
  by (simp add: two_remotes_def example_remote_def failing_remote_def bar_info_def example_env_def Let_def
      foo_cached_def foo_1_0_def foo_1_0_1_def)

text \<open>
  Claim C10 (every list query carries \<open>dependencies: false\<close>). The queries that
  \<open>findDescriptor\<close> adds to the trace all have \<open>opt_dependencies = False\<close> (and the requested
  name and version), for every context and so for every value of its preference
  \<open>includeDependencies\<close>. The dependencies of a descriptor built from a listing are the
  listing's own, or empty when the listing has none.
\<close>

theorem findDescriptor_never_asks_dependencies:
  "(\<exists>qs. list_calls (trace (snd (findDescriptor E packageId v exact ctx))) = list_calls (trace ctx) @ qs \<and>
         (\<forall>q\<in>set qs. \<not> opt_dependencies (snd q) \<and> opt_name (snd q) = packageId \<and> opt_version (snd q) = v)) \<and>
   dependencies (buildDescriptorFromRemote E remotePackageInfo rem) =
     (case info_dependencies remotePackageInfo of Some deps \<Rightarrow> deps | None \<Rightarrow> [])"
proof
  from findDescriptor_list_calls[of ctx E packageId v exact]
  obtain k where k:
    "list_calls (trace (snd (findDescriptor E packageId v exact ctx))) =
       list_calls (trace ctx) @
       map (\<lambda>rem. (remote_url rem,
              \<lparr>opt_name = packageId, opt_version = v,
               opt_exact = (if (if falsy v \<or> \<not> exact then False else exact) then ''true'' else ''false''),
               opt_dependencies = False\<rparr>)) (take k (remotes ctx))"
    by blast
  show "\<exists>qs. list_calls (trace (snd (findDescriptor E packageId v exact ctx))) = list_calls (trace ctx) @ qs \<and>
         (\<forall>q\<in>set qs. \<not> opt_dependencies (snd q) \<and> opt_name (snd q) = packageId \<and> opt_version (snd q) = v)"
    by (rule exI[of _ "map (\<lambda>rem. (remote_url rem,
              \<lparr>opt_name = packageId, opt_version = v,
               opt_exact = (if (if falsy v \<or> \<not> exact then False else exact) then ''true'' else ''false''),
               opt_dependencies = False\<rparr>)) (take k (remotes ctx))"]) (auto simp: k simp del: findDescriptor.simps)
  show "dependencies (buildDescriptorFromRemote E remotePackageInfo rem) =
     (case info_dependencies remotePackageInfo of Some deps \<Rightarrow> deps | None \<Rightarrow> [])"
    by simp
qed

theorem findDescriptor_never_asks_dependencies_witness:
  "list_calls (trace (snd (findDescriptor example_env ''bar'' None False
      (two_remotes\<lparr>includeDependencies := Some True\<rparr>)))) =
     [(''http://one'', \<lparr>opt_name = ''bar'', opt_version = None, opt_exact = ''false'', opt_dependencies = False\<rparr>)] \<and>
   dependencies (buildDescriptorFromRemote example_env bar_info example_remote) = [(''baz'', ''1.0'')]"
  using findDescriptor_never_asks_dependencies[of example_env "''bar''" None False
      "two_remotes\<lparr>includeDependencies := Some True\<rparr>" bar_info example_remote]
  by (simp add: two_remotes_def example_remote_def failing_remote_def bar_info_def example_env_def Let_def)

section \<open>Properties of installing\<close>




text \<open>
  Claim C9 (\<open>force\<close> has no effect). \<open>install\<close> gives the same result and the same context for
  any two values of its fourth argument.
\<close>

theorem install_ignores_force:
  "install n E packageId v exact force ctx = install n E packageId v exact force' ctx"
  by (cases n) (simp_all only: install.simps Let_def)

section \<open>Properties of the dependency preference\<close>

text \<open>
  \<open>installDependencies\<close> copies the preference into a local variable before it defaults the
  field, and tests the local variable afterwards. With the preference unset the call so
  stores the default and skips the dependencies, whatever the origin of the descriptor.
\<close>

lemma installDependencies_unset:
  "includeDependencies ctx = None \<Longrightarrow>
   installDependencies n E r ctx =
     (Cb None (), ctx\<lparr>includeDependencies := Some (location (heap ctx ! r) = LocRemote)\<rparr>)"
  by (simp add: Let_def)

text \<open>
  Claim C3 (with the preference unset, a remote-origin descriptor's dependencies are
  installed on that very call). The code does not do this. \<open>listed_by example_remote\<close> is a
  context with the preference unset whose descriptor \<open>bar\<close> comes from a remote and depends
  on \<open>baz\<close>: \<open>installDependencies\<close> stores the default \<open>true\<close>, reports success and does
  nothing else; the trace stays empty.
\<close>

theorem installDependencies_skips_on_default:
  "includeDependencies (listed_by example_remote) = None \<and>
   location (heap (listed_by example_remote) ! 0) = LocRemote \<and>
   dependencies (heap (listed_by example_remote) ! 0) = [(''baz'', ''1.0'')] \<and>
   installDependencies 3 example_env 0 (listed_by example_remote) =
     (Cb None (), (listed_by example_remote)\<lparr>includeDependencies := Some True\<rparr>) \<and>
   trace (snd (installDependencies 3 example_env 0 (listed_by example_remote))) = []"
  by (simp add: listed_by_def example_remote_def bar_info_def example_env_def Let_def)

text \<open>
  The same in a whole session: \<open>install bar\<close> with the preference unset lists, fetches and
  installs \<open>bar\<close> from the remote and never asks for its dependency \<open>baz\<close>.
\<close>

lemma install_remote_skips_dependencies:
  "includeDependencies two_remotes = None \<and>
   fst (install 3 example_env ''bar'' None True ForceCallback two_remotes) = Cb None () \<and>
   trace (snd (install 3 example_env ''bar'' None True ForceCallback two_remotes)) =
     [EvList ''http://one''
        \<lparr>opt_name = ''bar'', opt_version = None, opt_exact = ''false'', opt_dependencies = False\<rparr>,
      EvFetch ''http://one'' (Some bar_info),
      EvJob 0,
      EvLoad (Some ''/tmp/bar''),
      EvInstall 0 \<lparr>pkg_name = ''bar'', pkg_version = ''1.0'', pkg_dependencies = None, pkg_path = ''/tmp/bar''\<rparr>,
      EvCleanup ''http://one'' (Some ''/tmp/bar'')] \<and>
   location (heap (snd (install 3 example_env ''bar'' None True ForceCallback two_remotes)) ! 0) = LocRemote \<and>
   dependencies (heap (snd (install 3 example_env ''bar'' None True ForceCallback two_remotes)) ! 0) = [(''baz'', ''1.0'')] \<and>
   includeDependencies (snd (install 3 example_env ''bar'' None True ForceCallback two_remotes)) = Some True"
  by (simp add: two_remotes_def example_remote_def failing_remote_def bar_info_def example_env_def
      Let_def eval_nat_numeral)

section \<open>Properties of the command\<close>

text \<open>
  Claim C4 (the completion callback receives exactly one outcome). The code does not do
  this. An invocation that passes the validation starts the chain, whose final callback
  calls \<open>done(err)\<close>, and then runs \<open>return done()\<close>: the callback is called twice. For
  \<open>install ./foo\<close> it receives success twice; for \<open>install missing\<close> it receives the failure
  "missing not found" and a success.
\<close>

theorem invoke_signals_twice:
  "invoke 3 example_env example_registry [example_source] (request_for ''./foo'') =
     [EvLoad (Some ''./foo''),
      EvJob 0,
      EvLoad (Some ''./foo''),
      EvInstall 0 \<lparr>pkg_name = ''foo'', pkg_version = ''1.0'',
                    pkg_dependencies = Some [(''bar'', ''1.0'')], pkg_path = ''./foo''\<rparr>,
      EvDone None,
      EvDone None] \<and>
   invoke 3 example_env example_registry [example_source] (request_for ''missing'') =
     [EvList ''http://one''
        \<lparr>opt_name = ''missing'', opt_version = None, opt_exact = ''false'', opt_dependencies = False\<rparr>,
      EvDone (Some ''missing not found''),
      EvDone None]"
  by (simp add: example_registry_def example_source_def request_for_def example_remote_def bar_info_def
      example_env_def Let_def eval_nat_numeral)

text \<open>
  The jobs belong to descriptor objects, and every load of a path makes a new object: for
  \<open>install ./foo ./foo\<close> the package at \<open>./foo\<close> is handed to the destination twice, once for
  each of the two objects.
\<close>

lemma invoke_same_path_twice:
  "invoke 3 example_env example_registry [example_source]
     ((request_for ''./foo'')\<lparr>st_packageIds := Some [''./foo'', ''./foo'']\<rparr>) =
     [EvLoad (Some ''./foo''),
      EvJob 0,
      EvLoad (Some ''./foo''),
      EvInstall 0 \<lparr>pkg_name = ''foo'', pkg_version = ''1.0'',
                    pkg_dependencies = Some [(''bar'', ''1.0'')], pkg_path = ''./foo''\<rparr>,
      EvLoad (Some ''./foo''),
      EvJob 1,
      EvLoad (Some ''./foo''),
      EvInstall 1 \<lparr>pkg_name = ''foo'', pkg_version = ''1.0'',
                    pkg_dependencies = Some [(''bar'', ''1.0'')], pkg_path = ''./foo''\<rparr>,
      EvDone None,
      EvDone None]"
  by (simp add: example_registry_def example_source_def request_for_def example_remote_def bar_info_def
      example_env_def Let_def eval_nat_numeral)

section \<open>The install job runs once\<close>

text \<open>
  From here on the defining equations of the operations are used only where a proof names
  them.
\<close>

declare addDescriptor.simps [simp del] prepare.simps [simp del] prepare_body.simps [simp del]
  findDescriptor.simps [simp del] findDescriptor_scan.simps [simp del] findDescriptor_merge.simps [simp del]
  loadDescriptor.simps [simp del] install_resolve.simps [simp del] install_package.simps [simp del]
  descriptorFor.simps [simp del] install.simps [simp del] buildDescriptorFromRemote.simps [simp del]
  buildDescriptorFromPackage.simps [simp del] job_runs.simps [simp del] dest_installs.simps [simp del]
  job_of.simps [simp del] set_installJob.simps [simp del] set_prepareJob.simps [simp del]
  emit.simps [simp del] alloc.simps [simp del] inherits.simps [simp del]

lemma quiet_step_refl: "quiet_step ctx ctx"
  by (simp add: quiet_step_def)

lemma quiet_step_trans: "quiet_step a b \<Longrightarrow> quiet_step b c \<Longrightarrow> quiet_step a c"
  by (simp add: quiet_step_def)

lemma quiet_step_inv: "quiet_step ctx ctx' \<Longrightarrow> job_inv ctx \<Longrightarrow> job_inv ctx'"
  by (simp add: quiet_step_def job_inv_def)

lemma quiet_step_frozen: "quiet_step ctx ctx' \<Longrightarrow> job_frozen ctx ctx'"
  by (simp add: quiet_step_def job_frozen_def)

lemma job_frozen_refl: "job_frozen ctx ctx"
  by (simp add: job_frozen_def)

lemma job_frozen_trans: "job_frozen a b \<Longrightarrow> job_frozen b c \<Longrightarrow> job_frozen a c"
  by (simp add: job_frozen_def)

text \<open>Elementary steps.\<close>

lemma job_runs_append: "job_runs r (xs @ ys) = job_runs r xs + job_runs r ys"
  by (simp add: job_runs.simps)

lemma dest_installs_append: "dest_installs r (xs @ ys) = dest_installs r xs + dest_installs r ys"
  by (simp add: dest_installs.simps)

lemma quiet_emit:
  "(\<forall>r. e \<noteq> EvJob r) \<Longrightarrow> (\<forall>r. \<not> is_install r e) \<Longrightarrow> quiet_step ctx (emit e ctx)"
  by (auto simp: quiet_step_def emit.simps job_of.simps job_runs.simps dest_installs.simps refs_ok_def)

lemma nth_update_field:
  assumes "\<And>d. g (f d) = g d"
  shows "g (xs[r := f (xs ! r)] ! i) = g (xs ! i)"
proof (cases "r < length xs")
  case True
  then show ?thesis using assms by (cases "i = r") simp_all
next
  case False
  then show ?thesis by (simp add: list_update_beyond)
qed

lemma quiet_set_prepareJob: "quiet_step ctx (set_prepareJob r j ctx)"
  by (simp add: quiet_step_def set_prepareJob.simps job_of.simps refs_ok_def
      nth_update_field[where g = installJob and f = "\<lambda>d. d\<lparr>prepareJob := Some j\<rparr>"])

lemma quiet_prepare_body: "quiet_step ctx (snd (prepare_body E r ctx))"
proof -
  have "quiet_step ctx (emit e ctx\<lparr>heap := (heap (emit e ctx))[r := (heap ctx ! r)\<lparr>path := p\<rparr>]\<rparr>)"
    if "\<forall>r. e \<noteq> EvJob r" "\<forall>r. \<not> is_install r e" for e p
    using that
    by (simp add: quiet_step_def emit.simps job_of.simps job_runs.simps dest_installs.simps
        refs_ok_def nth_update_field[where g = installJob and f = "\<lambda>d. d\<lparr>path := p\<rparr>"])
  then show ?thesis
    by (auto simp: prepare_body.simps Let_def quiet_step_refl quiet_emit split: option.splits prod.splits)
qed

lemma quiet_prepare: "quiet_step ctx (snd (prepare E r ctx))"
proof (cases "once_call (prepareJob (heap ctx ! r))")
  case Execute
  have "quiet_step ctx (set_prepareJob r (once_done res) (snd (prepare_body E r (set_prepareJob r Running ctx))))"
    for res :: "unit result"
    by (meson quiet_step_trans quiet_set_prepareJob quiet_prepare_body)
  then show ?thesis using Execute
    by (simp add: prepare.simps case_prod_beta)
next
  case Attach
  then show ?thesis by (simp add: prepare.simps quiet_step_refl)
next
  case (Replay e)
  then show ?thesis by (simp add: prepare.simps quiet_step_refl)
qed

lemma inherits_alloc: "inherits E (snd (alloc ctx d)) = inherits E ctx"
  by (intro ext) (simp add: inherits.simps alloc.simps)

lemma addDescriptor_alloc:
  "snd (addDescriptor E (snd (alloc ctx d)) (length (heap ctx)) overlay) =
     (if inherits E ctx (name d) then ctx\<lparr>heap := heap ctx @ [d]\<rparr>
      else ctx\<lparr>heap := heap ctx @ [d],
               descriptors := (descriptors ctx)(name d \<mapsto>
                 (case descriptors ctx (name d) of None \<Rightarrow> [] | Some ds \<Rightarrow> ds) @ [length (heap ctx)])\<rparr>)"
proof -
  have n: "name (heap (snd (alloc ctx d)) ! length (heap ctx)) = name d"
    by (simp add: alloc.simps)
  show ?thesis
    by (simp only: addDescriptor_appends n inherits_alloc) (simp add: alloc.simps)
qed

lemma refs_ok_alloc_add:
  assumes "refs_ok ctx"
  shows "refs_ok (snd (addDescriptor E (snd (alloc ctx d)) (length (heap ctx)) overlay))"
proof (cases "inherits E ctx (name d)")
  case True
  have "refs_ok (ctx\<lparr>heap := heap ctx @ [d]\<rparr>)"
    using assms by (auto simp: refs_ok_def less_Suc_eq)
  then show ?thesis using True by (simp only: addDescriptor_alloc if_True)
next
  case False
  let ?old = "case descriptors ctx (name d) of None \<Rightarrow> [] | Some ds \<Rightarrow> ds"
  have eq: "snd (addDescriptor E (snd (alloc ctx d)) (length (heap ctx)) overlay) =
      ctx\<lparr>heap := heap ctx @ [d], descriptors := (descriptors ctx)(name d \<mapsto> ?old @ [length (heap ctx)])\<rparr>"
    using False by (simp only: addDescriptor_alloc if_False)
  have old: "\<forall>r\<in>set ?old. r < length (heap ctx)"
  proof (cases "descriptors ctx (name d)")
    case None
    then show ?thesis by simp
  next
    case (Some ds)
    then show ?thesis using assms unfolding refs_ok_def by auto
  qed
  show ?thesis
    unfolding eq refs_ok_def
  proof (intro allI impI ballI)
    fix packageId ds r
    assume a: "descriptors (ctx\<lparr>heap := heap ctx @ [d],
        descriptors := (descriptors ctx)(name d \<mapsto> ?old @ [length (heap ctx)])\<rparr>) packageId = Some ds"
      and r: "r \<in> set ds"
    show "r < length (heap (ctx\<lparr>heap := heap ctx @ [d],
        descriptors := (descriptors ctx)(name d \<mapsto> ?old @ [length (heap ctx)])\<rparr>))"
    proof (cases "packageId = name d")
      case True
      then have "ds = ?old @ [length (heap ctx)]" using a by simp
      then have "r \<in> set ?old \<or> r = length (heap ctx)" using r by auto
      then show ?thesis using old by auto
    next
      case False
      then have "descriptors ctx packageId = Some ds" using a by simp
      then have "r < length (heap ctx)" using assms r by (auto simp: refs_ok_def)
      then show ?thesis by simp
    qed
  qed
qed

lemma quiet_alloc_add:
  "installJob d = None \<Longrightarrow>
   quiet_step ctx (snd (addDescriptor E (snd (alloc ctx d)) (length (heap ctx)) overlay))"
  unfolding quiet_step_def
  apply (intro conjI allI impI)
  subgoal by (simp only: addDescriptor_alloc) simp
  subgoal for r by (simp only: addDescriptor_alloc) (simp add: job_of.simps nth_append)
  subgoal by (simp only: addDescriptor_alloc) simp
  subgoal by (simp only: addDescriptor_alloc) simp
  subgoal by (rule refs_ok_alloc_add)
  done

lemma fst_alloc: "fst (alloc ctx d) = length (heap ctx)"
  by (simp add: alloc.simps)

lemma quiet_findDescriptor_merge: "quiet_step ctx (snd (findDescriptor_merge E rem infos ctx))"
proof (induction infos arbitrary: ctx)
  case Nil
  then show ?case by (simp add: findDescriptor_merge.simps quiet_step_refl)
next
  case (Cons i infos)
  let ?d = "buildDescriptorFromRemote E i rem"
  let ?added = "addDescriptor E (snd (alloc ctx ?d)) (length (heap ctx)) False"
  have j: "installJob ?d = None" by (simp add: buildDescriptorFromRemote.simps)
  have q1: "quiet_step ctx (snd ?added)" using quiet_alloc_add[OF j] .
  have "quiet_step ctx (snd (prepare E (length (heap ctx)) (snd ?added)))"
    using q1 quiet_prepare quiet_step_trans by blast
  then have "quiet_step ctx (snd (findDescriptor_merge E rem infos (snd (prepare E (length (heap ctx)) (snd ?added)))))"
    using Cons.IH quiet_step_trans by blast
  then show ?case
    using q1 by (simp add: findDescriptor_merge.simps Let_def case_prod_beta fst_alloc)
qed

lemma quiet_findDescriptor_scan:
  "quiet_step ctx (snd (findDescriptor_scan E packageId v exact opts rems ret ctx))"
proof (induction rems arbitrary: ret ctx)
  case Nil
  then show ?case by (simp add: findDescriptor_scan.simps quiet_step_refl)
next
  case (Cons rem rest)
  let ?ctx1 = "emit (EvList (remote_url rem) opts) ctx"
  have q1: "quiet_step ctx ?ctx1" by (simp add: quiet_emit)
  have q2: "quiet_step ctx (emit (EvWarn w) ?ctx1)" for w
    using q1 quiet_emit[of "EvWarn w" ?ctx1] quiet_step_trans by auto
  have q3: "quiet_step ctx (snd (findDescriptor_merge E rem infos ?ctx1))" for infos
    using q1 quiet_findDescriptor_merge quiet_step_trans by blast
  have step: "quiet_step ctx c \<Longrightarrow>
      quiet_step ctx (snd (findDescriptor_scan E packageId v exact opts rest r c))" for c r
    using Cons.IH quiet_step_trans by blast
  show ?case
    by (auto simp: findDescriptor_scan.simps Let_def case_prod_beta q1 q2 q3 step split: option.splits)
qed

lemma quiet_findDescriptor: "quiet_step ctx (snd (findDescriptor E packageId v exact ctx))"
  by (simp add: findDescriptor.simps Let_def quiet_step_refl quiet_findDescriptor_scan case_prod_beta)

lemma quiet_loadDescriptor: "quiet_step ctx (snd (loadDescriptor E p ctx))"
proof -
  let ?c1 = "emit (EvLoad (Some (path_normalize E p))) ctx"
  have q1: "quiet_step ctx ?c1" by (simp add: quiet_emit)
  have "quiet_step ctx (snd (addDescriptor E (snd (alloc ?c1 (buildDescriptorFromPackage E pkg))) (length (heap ?c1)) True))"
    for pkg
    using q1 quiet_alloc_add[where d = "buildDescriptorFromPackage E pkg" and ctx = ?c1 and overlay = True
        and E = E] quiet_step_trans
    by (simp add: buildDescriptorFromPackage.simps)
  then show ?thesis
    by (auto simp: loadDescriptor.simps Let_def case_prod_beta q1 fst_alloc split: option.splits)
qed

lemma quiet_install_resolve: "quiet_step ctx (snd (install_resolve E packageId v exact ctx))"
  by (simp add: install_resolve.simps quiet_loadDescriptor quiet_findDescriptor)

lemma descriptorFor_loop_member:
  "descriptorFor_loop E h v exact ds ret = Some r \<Longrightarrow> ret = Some r \<or> r \<in> set ds"
proof (induction ds arbitrary: ret)
  case Nil
  then show ?case by simp
next
  case (Cons cur ds)
  from Cons.prems have "descriptorFor_loop E h v exact ds (descriptorFor_step E h v exact ret cur) = Some r"
    by simp
  from Cons.IH[OF this] show ?case
    by (auto split: if_splits option.splits)
qed

lemma descriptorFor_cached:
  "descriptorFor E ctx packageId v exact = Found r \<Longrightarrow>
   \<exists>ds. descriptors ctx packageId = Some ds \<and> r \<in> set ds"
  using descriptorFor_loop_member[of E "heap ctx" v exact _ None r]
    descriptorFor_Found[of E ctx packageId v exact r]
  by auto

lemma findDescriptor_scan_found:
  "\<not> found ret \<Longrightarrow> found (fst (findDescriptor_scan E packageId v exact opts rems ret ctx)) \<Longrightarrow>
   fst (findDescriptor_scan E packageId v exact opts rems ret ctx) =
     descriptorFor E (snd (findDescriptor_scan E packageId v exact opts rems ret ctx)) packageId v exact"
proof (induction rems arbitrary: ret ctx)
  case Nil
  then show ?case by (simp add: findDescriptor_scan.simps)
next
  case (Cons rem rest)
  obtain err response where l: "remote_list rem opts = (err, response)" by (cases "remote_list rem opts")
  show ?case
    using Cons.prems Cons.IH l
    by (auto simp: findDescriptor_scan.simps Let_def case_prod_beta split: option.splits if_splits)
qed

lemma descriptorFor_loop_falsy:
  "falsy v \<Longrightarrow> descriptorFor_loop E h v exact ds ret = descriptorFor_loop E h v exact' ds ret"
  by (induction ds arbitrary: ret) simp_all

lemma descriptorFor_exact_reset:
  "descriptorFor E c packageId v (if falsy v \<or> \<not> exact then False else exact) =
   descriptorFor E c packageId v exact"
proof (cases "falsy v")
  case True
  then show ?thesis
    using descriptorFor_loop_falsy[OF True, of E "heap c" False _ None exact]
    by (simp add: descriptorFor.simps split: option.splits)
next
  case False
  then show ?thesis by (cases exact) simp_all
qed

lemma install_resolve_in_heap:
  assumes "refs_ok ctx" "resolved (fst (install_resolve E packageId v exact ctx)) = Found r"
  shows "r < length (heap (snd (install_resolve E packageId v exact ctx)))"
proof (cases "looks_like_path packageId")
  case True
  have "r < length (heap (snd (addDescriptor E (snd (alloc c d)) (length (heap c)) True)))"
    if "r = length (heap c)" for c d
    using that by (simp only: addDescriptor_alloc) simp
  then show ?thesis
    using assms(2) True
    by (auto simp: install_resolve.simps loadDescriptor.simps Let_def case_prod_beta fst_alloc
        split: option.splits if_splits simp del: looks_like_path.simps)
next
  case False
  let ?res = "findDescriptor E packageId v exact ctx"
  let ?ret = "descriptorFor E ctx packageId v exact"
  have ok: "refs_ok (snd ?res)"
    using quiet_findDescriptor[of ctx E packageId v exact] assms(1) by (simp add: quiet_step_def)
  have res: "resolved (fst ?res) = Found r"
    using assms(2) False by (simp add: install_resolve.simps del: looks_like_path.simps)
  have "descriptorFor E (snd ?res) packageId v exact = Found r"
  proof (cases "?ret = TypeError")
    case True
    then have "?res = (Threw, ctx)" by (simp add: findDescriptor.simps Let_def case_prod_beta)
    then show ?thesis using res by simp
  next
    case nt: False
    show ?thesis
    proof (cases "found ?ret")
      case True
      then have "?res = (Cb None ?ret, ctx)" using nt by (simp add: findDescriptor.simps Let_def case_prod_beta)
      then show ?thesis using res by simp
    next
      case nf: False
      define scan where "scan = findDescriptor_scan E packageId v (if falsy v \<or> \<not> exact then False else exact)
          \<lparr>opt_name = packageId, opt_version = v,
           opt_exact = (if (if falsy v \<or> \<not> exact then False else exact) then ''true'' else ''false''),
           opt_dependencies = False\<rparr> (remotes ctx) ?ret ctx"
      have eq: "?res = (if fst scan = TypeError then Threw else Cb None (fst scan), snd scan)"
        unfolding scan_def using nf nt by (simp add: findDescriptor.simps Let_def case_prod_beta)
      have fr: "fst scan = Found r"
        using res unfolding eq by (simp split: if_splits)
      then have f: "found (fst scan)" by simp
      have s1: "fst scan =
          descriptorFor E (snd scan) packageId v (if falsy v \<or> \<not> exact then False else exact)"
        using findDescriptor_scan_found[OF nf f[unfolded scan_def]] unfolding scan_def .
      have "snd ?res = snd scan" unfolding eq by simp
      then show ?thesis using s1 fr by (simp only: descriptorFor_exact_reset)
    qed
  qed
  from descriptorFor_cached[OF this] ok show ?thesis
    using False by (auto simp: refs_ok_def install_resolve.simps simp del: looks_like_path.simps)
qed

text \<open>The start and the end of a job.\<close>

lemma job_of_set_installJob:
  "job_of (set_installJob r j c) x = (if x = r \<and> r < length (heap c) then Some j else job_of c x)"
  by (auto simp: job_of.simps set_installJob.simps)

lemma job_of_emit: "job_of (emit e c) = job_of c"
  by (intro ext) (simp add: job_of.simps emit.simps)

lemma length_heap_set_installJob: "length (heap (set_installJob r j c)) = length (heap c)"
  by (simp add: set_installJob.simps)

lemma refs_ok_set_installJob: "refs_ok (set_installJob r j c) = refs_ok c"
  by (simp add: refs_ok_def set_installJob.simps)

lemma trace_set_installJob: "trace (set_installJob r j c) = trace c"
  by (simp add: set_installJob.simps)

lemma job_of_Some_in_heap: "job_of c r = Some j \<Longrightarrow> r < length (heap c)"
  by (simp add: job_of.simps split: if_splits)

lemma job_invD:
  "job_inv c \<Longrightarrow> job_runs r (trace c) = runs_expected (job_of c r) \<and>
     dest_installs r (trace c) \<le> installs_allowed (job_of c r)"
  by (simp add: job_inv_def)

lemma job_start:
  assumes "job_inv c" "r < length (heap c)" "installJob (heap c ! r) = None"
  shows "job_inv (emit (EvJob r) (set_installJob r Running c))"
    and "job_frozen c (emit (EvJob r) (set_installJob r Running c))"
    and "job_of (emit (EvJob r) (set_installJob r Running c)) r = Some Running"
proof -
  let ?c = "emit (EvJob r) (set_installJob r Running c)"
  have none: "job_of c r = None" using assms(2,3) by (simp add: job_of.simps)
  have jo: "job_of ?c x = (if x = r then Some Running else job_of c x)" for x
    using assms(2) by (simp add: job_of_emit job_of_set_installJob)
  have tr: "trace ?c = trace c @ [EvJob r]"
    by (simp add: emit.simps set_installJob.simps)
  have runs: "job_runs x (trace ?c) = job_runs x (trace c) + (if x = r then 1 else 0)" for x
    unfolding tr by (simp add: job_runs.simps)
  have dest: "dest_installs x (trace ?c) = dest_installs x (trace c)" for x
    unfolding tr by (simp add: dest_installs.simps)
  have refs: "refs_ok ?c" using assms(1)
    by (simp add: job_inv_def refs_ok_def emit.simps set_installJob.simps)
  have "job_runs x (trace ?c) = runs_expected (job_of ?c x) \<and>
        dest_installs x (trace ?c) \<le> installs_allowed (job_of ?c x)" for x
    using job_invD[OF assms(1), of x] none unfolding runs dest jo
    by (cases "x = r") auto
  then show "job_inv ?c" using refs unfolding job_inv_def by blast
  have len: "length (heap ?c) = length (heap c)"
    by (simp add: emit.simps set_installJob.simps)
  show "job_frozen c ?c"
    using none by (auto simp: job_frozen_def jo len)
  show "job_of ?c r = Some Running" by (simp add: jo)
qed

lemma job_finish:
  assumes "job_inv c" "job_of c r = Some Running"
  shows "job_inv (set_installJob r j c)"
proof -
  have r: "r < length (heap c)" using assms(2) by (rule job_of_Some_in_heap)
  have "job_runs x (trace c) = runs_expected (job_of (set_installJob r j c) x) \<and>
        dest_installs x (trace c) \<le> installs_allowed (job_of (set_installJob r j c) x)" for x
  proof (cases "x = r")
    case True
    have "job_runs r (trace c) = 1" "dest_installs r (trace c) = 0"
      using job_invD[OF assms(1), of r] assms(2) by simp_all
    then show ?thesis using True r by (simp add: job_of_set_installJob)
  next
    case False
    then show ?thesis using assms(1) by (simp add: job_of_set_installJob job_inv_def)
  qed
  then show ?thesis
    using assms(1) by (simp add: job_inv_def refs_ok_set_installJob trace_set_installJob)
qed

lemma job_frozen_finish:
  assumes "job_frozen c1 cA" "job_frozen cA c'" "job_of c1 r = None"
  shows "job_frozen c1 (set_installJob r j c')"
proof -
  have f: "job_frozen c1 c'" using assms(1,2) by (rule job_frozen_trans)
  have "job_of (set_installJob r j c') x = job_of c1 x" if "job_of c1 x \<noteq> None" for x
  proof -
    have "x \<noteq> r" using that assms(3) by auto
    then show ?thesis using f that by (simp add: job_of_set_installJob job_frozen_def)
  qed
  then show ?thesis using f by (simp add: job_frozen_def length_heap_set_installJob)
qed

lemma install_dispatch_RunJob:
  "install_dispatch packageId l c = RunJob r \<Longrightarrow> l = Found r \<and> installJob (heap c ! r) = None"
proof (cases l)
  case (Found x)
  assume "install_dispatch packageId l c = RunJob r"
  then show ?thesis using Found
    by (cases "installJob (heap c ! x)")
       (auto split: once_action.splits job.splits elim: once_call.elims)
qed simp_all

text \<open>The second step of the job.\<close>

lemma install_package_frame:
  "heap (snd (install_package E packageId r c)) = heap c \<and>
   descriptors (snd (install_package E packageId r c)) = descriptors c \<and>
   (\<forall>x. job_runs x (trace (snd (install_package E packageId r c))) = job_runs x (trace c)) \<and>
   (\<forall>x. dest_installs x (trace (snd (install_package E packageId r c))) \<le>
        dest_installs x (trace c) +
          (if x = r \<and> (\<exists>err. fst (install_package E packageId r c) = Cb err ()) then 1 else 0))"
  by (auto simp: install_package.simps Let_def emit.simps job_runs.simps dest_installs.simps
      split: option.splits)

lemma install_package_inv:
  assumes "job_inv c" "job_of c r = Some Running"
  shows "job_inv (set_installJob r (once_done (fst (install_package E packageId r c)))
           (snd (install_package E packageId r c)))"
    and "job_frozen c (snd (install_package E packageId r c))"
proof -
  let ?res = "install_package E packageId r c"
  let ?c = "set_installJob r (once_done (fst ?res)) (snd ?res)"
  have h: "heap (snd ?res) = heap c" and d: "descriptors (snd ?res) = descriptors c"
    and runs: "\<And>x. job_runs x (trace (snd ?res)) = job_runs x (trace c)"
    and dest: "\<And>x. dest_installs x (trace (snd ?res)) \<le>
        dest_installs x (trace c) + (if x = r \<and> (\<exists>err. fst ?res = Cb err ()) then 1 else 0)"
    using install_package_frame[of E packageId r c] by auto
  have r: "r < length (heap c)" using assms(2) by (rule job_of_Some_in_heap)
  have jo: "job_of (snd ?res) = job_of c" by (intro ext) (simp add: job_of.simps h)
  show "job_frozen c (snd ?res)" by (simp add: job_frozen_def jo h)
  have "refs_ok (snd ?res)"
    using assms(1) by (simp add: refs_ok_def job_inv_def h d)
  then have refs: "refs_ok ?c"
    by (simp only: refs_ok_set_installJob)
  have "job_runs x (trace ?c) = runs_expected (job_of ?c x) \<and>
        dest_installs x (trace ?c) \<le> installs_allowed (job_of ?c x)" for x
  proof (cases "x = r")
    case True
    have a: "job_runs r (trace c) = 1" "dest_installs r (trace c) = 0"
      using job_invD[OF assms(1), of r] assms(2) by simp_all
    have b: "job_of ?c r = Some (once_done (fst ?res))"
      using r by (simp add: job_of_set_installJob h)
    show ?thesis
    proof (cases "\<exists>err. fst ?res = Cb err ()")
      case c: True
      then obtain err where e: "fst ?res = Cb err ()" by blast
      then show ?thesis using True a b runs[of r] dest[of r]
        by (simp add: trace_set_installJob)
    next
      case c: False
      then have "dest_installs r (trace (snd ?res)) = 0" using dest[of r] a by simp
      then show ?thesis using True a b runs[of r]
        by (simp add: trace_set_installJob)
    qed
  next
    case False
    then have "job_of ?c x = job_of c x" by (simp add: job_of_set_installJob jo)
    then show ?thesis
      using False job_invD[OF assms(1), of x] runs[of x] dest[of x]
      by (simp add: trace_set_installJob)
  qed
  then show "job_inv ?c" using refs unfolding job_inv_def by blast
qed

lemma quiet_includeDependencies: "quiet_step ctx (ctx\<lparr>includeDependencies := x\<rparr>)"
  by (simp add: quiet_step_def job_of.simps refs_ok_def)

lemma job_of_frozen_Running:
  "job_frozen c c' \<Longrightarrow> job_of c r = Some Running \<Longrightarrow> job_of c' r = Some Running"
  by (simp add: job_frozen_def)

lemma job_inv_preserved:
  "job_inv ctx \<longrightarrow>
     job_inv (snd (install n E packageId v exact force ctx)) \<and>
     job_frozen ctx (snd (install n E packageId v exact force ctx))"
  "job_inv ctx \<and> job_of ctx r = Some Running \<longrightarrow>
     job_frozen ctx (snd (install_job n E packageId r ctx)) \<and>
     job_inv (set_installJob r (once_done (fst (install_job n E packageId r ctx)))
                (snd (install_job n E packageId r ctx)))"
  "job_inv ctx \<longrightarrow>
     job_inv (snd (installDependencies n E r ctx)) \<and>
     job_frozen ctx (snd (installDependencies n E r ctx))"
  "job_inv ctx \<longrightarrow>
     job_inv (snd (install_parallel n E reqs ctx)) \<and>
     job_frozen ctx (snd (install_parallel n E reqs ctx))"
proof (induction n E packageId v exact force ctx and n E packageId r ctx and n E r ctx
    and n E reqs ctx rule: install_install_job_installDependencies_install_parallel.induct)
  case (1 E packageId v exact force ctx)
  show ?case by (simp add: install.simps job_frozen_refl)
next
  case (2 n E packageId v exact force ctx)
  let ?fc = "install_resolve E packageId v exact ctx"
  let ?c1 = "snd ?fc"
  show ?case
  proof (intro impI)
    assume inv: "job_inv ctx"
    have q: "quiet_step ctx ?c1" by (rule quiet_install_resolve)
    have inv1: "job_inv ?c1" using q inv by (rule quiet_step_inv)
    have fr1: "job_frozen ctx ?c1" using q by (rule quiet_step_frozen)
    show "job_inv (snd (install (Suc n) E packageId v exact force ctx)) \<and>
          job_frozen ctx (snd (install (Suc n) E packageId v exact force ctx))"
    proof (cases "chain_continues (fst ?fc)")
      case False
      then have "snd (install (Suc n) E packageId v exact force ctx) = ?c1"
        by (simp add: install.simps Let_def)
      then show ?thesis using inv1 fr1 by simp
    next
      case True
      show ?thesis
      proof (cases "install_dispatch packageId (resolved (fst ?fc)) ?c1")
        case (Answer res)
        then have "snd (install (Suc n) E packageId v exact force ctx) = ?c1"
          using True by (simp add: install.simps Let_def)
        then show ?thesis using inv1 fr1 by simp
      next
        case (RunJob r)
        let ?cA = "emit (EvJob r) (set_installJob r Running ?c1)"
        let ?ran = "install_job n E packageId r ?cA"
        let ?c2 = "set_installJob r (once_done (fst ?ran)) (snd ?ran)"
        have res: "resolved (fst ?fc) = Found r" and none: "installJob (heap ?c1 ! r) = None"
          using install_dispatch_RunJob[OF RunJob] by simp_all
        have refs: "refs_ok ctx" using inv by (simp add: job_inv_def)
        have r: "r < length (heap ?c1)" using install_resolve_in_heap[OF refs res] .
        have none1: "job_of ?c1 r = None" using none r by (simp add: job_of.simps)
        note st = job_start[OF inv1 r none]
        have ih: "job_inv ?cA \<and> job_of ?cA r = Some Running \<longrightarrow>
            job_frozen ?cA (snd ?ran) \<and> job_inv ?c2"
          using "2.IH"[OF refl refl refl True RunJob] .
        then have fr2: "job_frozen ?cA (snd ?ran)" and inv2: "job_inv ?c2"
          using st(1) st(3) by simp_all
        have eq: "snd (install (Suc n) E packageId v exact force ctx) = ?c2"
          using True RunJob by (simp add: install.simps Let_def)
        have "job_frozen ?c1 ?c2" using st(2) fr2 none1 by (rule job_frozen_finish)
        then have "job_frozen ctx ?c2" using fr1 job_frozen_trans by blast
        then show ?thesis using inv2 unfolding eq by simp
      qed
    qed
  qed
next
  case (3 n E packageId r ctx)
  let ?p = "prepare E r ctx"
  let ?d = "installDependencies n E r (snd ?p)"
  show ?case
  proof (intro impI)
    assume a: "job_inv ctx \<and> job_of ctx r = Some Running"
    have q: "quiet_step ctx (snd ?p)" by (rule quiet_prepare)
    have inv2: "job_inv (snd ?p)" using q a by (simp add: quiet_step_inv)
    have fr2: "job_frozen ctx (snd ?p)" using q by (rule quiet_step_frozen)
    have run2: "job_of (snd ?p) r = Some Running" using fr2 a by (simp add: job_of_frozen_Running)
    show "job_frozen ctx (snd (install_job n E packageId r ctx)) \<and>
          job_inv (set_installJob r (once_done (fst (install_job n E packageId r ctx)))
                    (snd (install_job n E packageId r ctx)))"
    proof (cases "chain_continues (fst ?p)")
      case False
      then have eq: "install_job n E packageId r ctx = ?p" by (simp add: Let_def)
      show ?thesis unfolding eq using fr2 job_finish[OF inv2 run2] by simp
    next
      case True
      have ih: "job_inv (snd ?p) \<longrightarrow> job_inv (snd ?d) \<and> job_frozen (snd ?p) (snd ?d)"
        using "3.IH"[OF refl True] .
      then have inv3: "job_inv (snd ?d)" and fr3: "job_frozen (snd ?p) (snd ?d)"
        using inv2 by simp_all
      have run3: "job_of (snd ?d) r = Some Running" using fr3 run2 by (rule job_of_frozen_Running)
      have fr: "job_frozen ctx (snd ?d)" using fr2 fr3 by (rule job_frozen_trans)
      show ?thesis
      proof (cases "chain_continues (fst ?d)")
        case False
        then have eq: "install_job n E packageId r ctx = ?d" using True by (simp add: Let_def)
        show ?thesis unfolding eq using fr job_finish[OF inv3 run3] by simp
      next
        case t: True
        then have eq: "install_job n E packageId r ctx = install_package E packageId r (snd ?d)"
          using True by (simp add: Let_def)
        show ?thesis unfolding eq
          using install_package_inv[OF inv3 run3, of E packageId] fr job_frozen_trans by blast
      qed
    qed
  qed
next
  case (4 n E r ctx)
  show ?case
  proof (intro impI)
    assume inv: "job_inv ctx"
    show "job_inv (snd (installDependencies n E r ctx)) \<and>
          job_frozen ctx (snd (installDependencies n E r ctx))"
    proof (cases "includeDependencies ctx = Some True \<and>
        ''hasOwnProperty'' \<notin> set (map fst (dependencies (heap ctx ! r)))")
      case True
      let ?reqs = "map (\<lambda>(packageId, v). (packageId, Some v, False, ForceBool False))
                     (dependencies (heap ctx ! r))"
      have eq: "installDependencies n E r ctx = install_parallel n E ?reqs ctx"
        using True by (simp add: Let_def)
      have "job_inv ctx \<longrightarrow> job_inv (snd (install_parallel n E ?reqs ctx)) \<and>
            job_frozen ctx (snd (install_parallel n E ?reqs ctx))"
        using "4.IH"[OF refl refl refl] True by simp
      then show ?thesis unfolding eq using inv by simp
    next
      case False
      let ?c1 = "if includeDependencies ctx = None
                 then ctx\<lparr>includeDependencies := Some (location (heap ctx ! r) = LocRemote)\<rparr>
                 else ctx"
      have eq: "snd (installDependencies n E r ctx) = ?c1"
        using False by (auto simp add: Let_def)
      have "quiet_step ctx ?c1" by (simp add: quiet_includeDependencies quiet_step_refl)
      then show ?thesis unfolding eq using inv quiet_step_inv quiet_step_frozen by blast
    qed
  qed
next
  case (5 n E ctx)
  show ?case by (simp add: job_frozen_refl)
next
  case (6 n E packageId v exact force rest ctx)
  let ?f = "install n E packageId v exact force ctx"
  let ?o = "install_parallel n E rest (snd ?f)"
  show ?case
  proof (intro impI)
    assume inv: "job_inv ctx"
    have inv1: "job_inv (snd ?f)" and fr1: "job_frozen ctx (snd ?f)"
      using "6.IH"(1) inv by simp_all
    show "job_inv (snd (install_parallel n E ((packageId, v, exact, force) # rest) ctx)) \<and>
          job_frozen ctx (snd (install_parallel n E ((packageId, v, exact, force) # rest) ctx))"
    proof (cases "aborted (fst ?f)")
      case True
      then have "install_parallel n E ((packageId, v, exact, force) # rest) ctx = ?f"
        by (simp add: Let_def)
      then show ?thesis using inv1 fr1 by simp
    next
      case False
      have "job_inv (snd ?f) \<longrightarrow> job_inv (snd ?o) \<and> job_frozen (snd ?f) (snd ?o)"
        using "6.IH"(2)[OF refl False] .
      then have inv2: "job_inv (snd ?o)" and fr2: "job_frozen (snd ?f) (snd ?o)"
        using inv1 by simp_all
      have "snd (install_parallel n E ((packageId, v, exact, force) # rest) ctx) = snd ?o"
        using False by (simp add: Let_def)
      then show ?thesis using inv2 job_frozen_trans[OF fr1 fr2] by simp
    qed
  qed
qed

lemma calls_snoc: "calls (es @ [e]) = calls es @ (case e of Call k \<Rightarrow> [k] | Complete err \<Rightarrow> [])"
  by (induction es rule: calls.induct) (auto split: once_event.splits)

lemma once_inv_step: "once_inv es s \<Longrightarrow> once_inv (es @ [e]) (once_step s e)"
proof (cases e)
  case (Call k)
  assume "once_inv es s"
  then show ?thesis using Call
    by (cases "os_job s"; cases "the (os_job s)")
       (auto simp: once_inv_def calls_snoc)
next
  case (Complete err)
  assume "once_inv es s"
  then show ?thesis using Complete
    by (cases "os_job s"; cases "the (os_job s)")
       (auto simp: once_inv_def calls_snoc)
qed

lemma once_inv_run: "once_inv es (foldl once_step once_init es)"
proof (induction es rule: rev_induct)
  case Nil
  then show ?case by (simp add: once_inv_def once_init_def)
next
  case (snoc e es)
  then show ?case using once_inv_step[of es "foldl once_step once_init es" e] by simp
qed

lemma job_inv_init: "job_inv (init src rems deps)"
  by (simp add: job_inv_def refs_ok_def job_of.simps job_runs.simps dest_installs.simps)

lemma job_inv_once:
  assumes "job_inv c"
  shows "job_runs r (trace c) \<le> 1 \<and> dest_installs r (trace c) \<le> job_runs r (trace c)"
proof (cases "job_of c r")
  case None
  then show ?thesis using job_invD[OF assms, of r] by simp
next
  case (Some j)
  then show ?thesis using job_invD[OF assms, of r] by (cases j) simp_all
qed

lemma job_frozen_Finished:
  "job_frozen c c' \<Longrightarrow> job_of c r = Some (Finished err) \<Longrightarrow> job_of c' r = Some (Finished err)"
  by (simp add: job_frozen_def)

lemma install_dispatch_Found:
  "r < length (heap c) \<Longrightarrow>
   install_dispatch packageId (Found r) c =
     (case job_of c r of
        None \<Rightarrow> RunJob r
      | Some Running \<Rightarrow> Answer Pending
      | Some (Finished err) \<Rightarrow> Answer (Cb err ()))"
  by (cases "installJob (heap c ! r)"; cases "the (installJob (heap c ! r))")
     (simp_all add: job_of.simps)

declare install_dispatch.simps [simp del]

text \<open>
  Claim C1 (the install job of a descriptor runs once, and every caller receives its
  outcome). A fresh context satisfies the invariant \<open>job_inv\<close>, and \<open>install\<close> and the fan-out
  over any list of requests (top-level requests and, inside, dependency edges) keep it; under
  the invariant the operation of a descriptor's install job was started at most once and the
  destination was called for the descriptor at most as often; a finished job keeps its
  outcome. A call of \<open>install\<close> that resolves to a descriptor whose job has finished answers
  with the stored outcome and does nothing else; one that meets a job in flight waits and
  starts nothing; one that meets no job starts the operation, once, and the outcome it
  reports is the one stored. For \<open>CORE.once\<close> itself, under any interleaving of calls and
  completion: the operation starts at most once, exactly once if there is a call, all
  callers that were answered got the same outcome, and once the job has finished every caller
  so far has been answered with it.
\<close>

theorem install_job_once:
  "job_inv (init src rems deps) \<and>
   (job_inv ctx \<longrightarrow>
      job_inv (snd (install n E packageId v exact force ctx)) \<and>
      job_inv (snd (install_parallel n E reqs ctx)) \<and>
      (\<forall>x. job_runs x (trace ctx) \<le> 1 \<and> dest_installs x (trace ctx) \<le> job_runs x (trace ctx)) \<and>
      (\<forall>x err. job_of ctx x = Some (Finished err) \<longrightarrow>
         job_of (snd (install n E packageId v exact force ctx)) x = Some (Finished err) \<and>
         job_of (snd (install_parallel n E reqs ctx)) x = Some (Finished err))) \<and>
   (job_inv ctx \<and>
    chain_continues (fst (install_resolve E packageId v exact ctx)) \<and>
    resolved (fst (install_resolve E packageId v exact ctx)) = Found r \<longrightarrow>
      (\<forall>err. job_of (snd (install_resolve E packageId v exact ctx)) r = Some (Finished err) \<longrightarrow>
         install (Suc n) E packageId v exact force ctx =
           (Cb err (), snd (install_resolve E packageId v exact ctx))) \<and>
      (job_of (snd (install_resolve E packageId v exact ctx)) r = Some Running \<longrightarrow>
         install (Suc n) E packageId v exact force ctx =
           (Pending, snd (install_resolve E packageId v exact ctx))) \<and>
      (job_of (snd (install_resolve E packageId v exact ctx)) r = None \<longrightarrow>
         job_runs r (trace (snd (install_resolve E packageId v exact ctx))) = 0 \<and>
         job_runs r (trace (snd (install (Suc n) E packageId v exact force ctx))) = 1 \<and>
         (\<forall>err. fst (install (Suc n) E packageId v exact force ctx) = Cb err () \<longrightarrow>
            job_of (snd (install (Suc n) E packageId v exact force ctx)) r = Some (Finished err)))) \<and>
   os_runs (foldl once_step once_init es) \<le> 1 \<and>
   (calls es \<noteq> [] \<longrightarrow> os_runs (foldl once_step once_init es) = 1) \<and>
   (\<forall>a\<in>set (os_answers (foldl once_step once_init es)).
      \<forall>b\<in>set (os_answers (foldl once_step once_init es)). snd a = snd b) \<and>
   (\<forall>err. os_job (foldl once_step once_init es) = Some (Finished err) \<longrightarrow>
      os_answers (foldl once_step once_init es) = map (\<lambda>k. (k, err)) (calls es))"
proof (intro conjI impI allI)
  show "job_inv (init src rems deps)" by (rule job_inv_init)
next
  assume "job_inv ctx"
  then show "job_inv (snd (install n E packageId v exact force ctx))"
    using job_inv_preserved(1) by blast
next
  assume "job_inv ctx"
  then show "job_inv (snd (install_parallel n E reqs ctx))"
    using job_inv_preserved(4) by blast
next
  fix x assume "job_inv ctx"
  then show "job_runs x (trace ctx) \<le> 1" using job_inv_once by blast
next
  fix x assume "job_inv ctx"
  then show "dest_installs x (trace ctx) \<le> job_runs x (trace ctx)" using job_inv_once by blast
next
  fix x err assume "job_inv ctx" "job_of ctx x = Some (Finished err)"
  then show "job_of (snd (install n E packageId v exact force ctx)) x = Some (Finished err)"
    using job_inv_preserved(1) job_frozen_Finished by blast
next
  fix x err assume "job_inv ctx" "job_of ctx x = Some (Finished err)"
  then show "job_of (snd (install_parallel n E reqs ctx)) x = Some (Finished err)"
    using job_inv_preserved(4) job_frozen_Finished by blast
next
  fix err
  let ?fc = "install_resolve E packageId v exact ctx"
  assume a: "job_inv ctx \<and> chain_continues (fst ?fc) \<and> resolved (fst ?fc) = Found r"
    and j: "job_of (snd ?fc) r = Some (Finished err)"
  have "r < length (heap (snd ?fc))" using j by (rule job_of_Some_in_heap)
  then show "install (Suc n) E packageId v exact force ctx = (Cb err (), snd ?fc)"
    using a j by (simp add: install.simps Let_def install_dispatch_Found)
next
  let ?fc = "install_resolve E packageId v exact ctx"
  assume a: "job_inv ctx \<and> chain_continues (fst ?fc) \<and> resolved (fst ?fc) = Found r"
    and j: "job_of (snd ?fc) r = Some Running"
  have "r < length (heap (snd ?fc))" using j by (rule job_of_Some_in_heap)
  then show "install (Suc n) E packageId v exact force ctx = (Pending, snd ?fc)"
    using a j by (simp add: install.simps Let_def install_dispatch_Found)
next
  let ?fc = "install_resolve E packageId v exact ctx"
  assume a: "job_inv ctx \<and> chain_continues (fst ?fc) \<and> resolved (fst ?fc) = Found r"
    and j: "job_of (snd ?fc) r = None"
  have "job_inv (snd ?fc)" using a quiet_install_resolve quiet_step_inv by blast
  then show "job_runs r (trace (snd ?fc)) = 0" using job_invD[of "snd ?fc" r] j by simp
next
  let ?fc = "install_resolve E packageId v exact ctx"
  let ?c1 = "snd ?fc"
  let ?cA = "emit (EvJob r) (set_installJob r Running ?c1)"
  let ?ran = "install_job n E packageId r ?cA"
  let ?c2 = "set_installJob r (once_done (fst ?ran)) (snd ?ran)"
  assume a: "job_inv ctx \<and> chain_continues (fst ?fc) \<and> resolved (fst ?fc) = Found r"
    and j: "job_of ?c1 r = None"
  have inv1: "job_inv ?c1" using a quiet_install_resolve quiet_step_inv by blast
  have r: "r < length (heap ?c1)"
    using install_resolve_in_heap[of ctx E packageId v exact r] a by (simp add: job_inv_def)
  have none: "installJob (heap ?c1 ! r) = None" using j r by (simp add: job_of.simps)
  note st = job_start[OF inv1 r none]
  have eq: "install (Suc n) E packageId v exact force ctx = (fst ?ran, ?c2)"
    using a j r by (simp add: install.simps Let_def install_dispatch_Found)
  have fr: "job_frozen ?cA (snd ?ran)" and inv2: "job_inv ?c2"
    using job_inv_preserved(2)[of ?cA r n E packageId] st by simp_all
  have "r < length (heap ?cA)" using r by (simp add: emit.simps set_installJob.simps)
  then have r2: "r < length (heap (snd ?ran))" using fr by (simp add: job_frozen_def)
  then have stored: "job_of ?c2 r = Some (once_done (fst ?ran))"
    by (simp add: job_of_set_installJob)
  show "job_runs r (trace (snd (install (Suc n) E packageId v exact force ctx))) = 1"
    unfolding eq using job_invD[OF inv2, of r] stored by simp
  fix err assume "fst (install (Suc n) E packageId v exact force ctx) = Cb err ()"
  then show "job_of (snd (install (Suc n) E packageId v exact force ctx)) r = Some (Finished err)"
    unfolding eq using stored by simp
next
  note i = once_inv_run[of es]
  show "os_runs (foldl once_step once_init es) \<le> 1"
    using i by (auto simp: once_inv_def split: option.splits job.splits)
  show "os_runs (foldl once_step once_init es) = 1" if "calls es \<noteq> []"
    using i that by (auto simp: once_inv_def split: option.splits job.splits)
  show "\<forall>a\<in>set (os_answers (foldl once_step once_init es)).
      \<forall>b\<in>set (os_answers (foldl once_step once_init es)). snd a = snd b"
    using i by (auto simp: once_inv_def split: option.splits job.splits)
  show "os_answers (foldl once_step once_init es) = map (\<lambda>k. (k, err)) (calls es)"
    if "os_job (foldl once_step once_init es) = Some (Finished err)" for err
    using i that by (auto simp: once_inv_def split: option.splits job.splits)
qed

lemma bar_installed_eval:
  "bar_installed =
     \<lparr>source = (\<lambda>pkg. None), remotes = [example_remote, failing_remote],
      includeDependencies = Some True,
      descriptors = [''bar'' \<mapsto> [0]],
      heap = [(buildDescriptorFromRemote example_env bar_info example_remote)
                \<lparr>path := Some ''/tmp/bar'', prepareJob := Some (Finished None),
                 installJob := Some (Finished None)\<rparr>],
      trace = [EvList ''http://one''
                 \<lparr>opt_name = ''bar'', opt_version = None, opt_exact = ''false'', opt_dependencies = False\<rparr>,
               EvFetch ''http://one'' (Some bar_info),
               EvJob 0,
               EvLoad (Some ''/tmp/bar''),
               EvInstall 0 \<lparr>pkg_name = ''bar'', pkg_version = ''1.0'', pkg_dependencies = None,
                             pkg_path = ''/tmp/bar''\<rparr>,
               EvCleanup ''http://one'' (Some ''/tmp/bar'')]\<rparr>"
  by (simp add: bar_installed_def two_remotes_def example_remote_def failing_remote_def bar_info_def
      example_env_def Let_def eval_nat_numeral
      install.simps install_resolve.simps findDescriptor.simps findDescriptor_scan.simps
      findDescriptor_merge.simps descriptorFor.simps addDescriptor_appends inherits.simps prepare.simps prepare_body.simps
      install_package.simps buildDescriptorFromRemote.simps emit.simps alloc.simps
      set_installJob.simps set_prepareJob.simps install_dispatch.simps)

theorem install_job_once_witness:
  "job_inv two_remotes \<and>
   job_inv bar_installed \<and>
   job_runs 0 (trace bar_installed) = 1 \<and>
   dest_installs 0 (trace bar_installed) = 1 \<and>
   chain_continues (fst (install_resolve example_env ''bar'' (Some ''1.0'') False bar_installed)) \<and>
   resolved (fst (install_resolve example_env ''bar'' (Some ''1.0'') False bar_installed)) = Found 0 \<and>
   install 3 example_env ''bar'' (Some ''1.0'') False (ForceBool False) bar_installed =
     (Cb None (), bar_installed) \<and>
   fst (install 3 example_env ''loop'' None True ForceCallback (init (\<lambda>pkg. None) [loop_remote] (Some True))) =
     Pending \<and>
   job_runs 0 (trace (snd (install 3 example_env ''loop'' None True ForceCallback
                             (init (\<lambda>pkg. None) [loop_remote] (Some True))))) = 1 \<and>
   dest_installs 0 (trace (snd (install 3 example_env ''loop'' None True ForceCallback
                             (init (\<lambda>pkg. None) [loop_remote] (Some True))))) = 0 \<and>
   os_runs (foldl once_step once_init [Call 1, Call 2, Complete None, Call 3]) = 1 \<and>
   os_answers (foldl once_step once_init [Call 1, Call 2, Complete None, Call 3]) =
     [(1, None), (2, None), (3, None)]"
proof -
  have init: "job_inv two_remotes"
    using install_job_once[of "\<lambda>pkg. None" "[example_remote, failing_remote]" None]
    by (simp add: two_remotes_def)
  have inst: "job_inv bar_installed"
    using init install_job_once[of _ _ _ two_remotes 3 example_env "''bar''" None True ForceCallback]
    by (simp add: bar_installed_def)
  have counts: "job_runs 0 (trace bar_installed) = 1 \<and> dest_installs 0 (trace bar_installed) = 1"
    by (simp add: bar_installed_eval job_runs.simps dest_installs.simps)
  have res: "install_resolve example_env ''bar'' (Some ''1.0'') False bar_installed =
      (Cb None (Found 0), bar_installed)"
    by (simp add: bar_installed_eval install_resolve.simps findDescriptor.simps descriptorFor.simps
        Let_def example_env_def buildDescriptorFromRemote.simps bar_info_def)
  have again: "install 3 example_env ''bar'' (Some ''1.0'') False (ForceBool False) bar_installed =
      (Cb None (), bar_installed)"
    using inst res
      install_job_once[of _ _ _ bar_installed 2 example_env "''bar''" "Some ''1.0''" False "ForceBool False" _ 0]
    by (simp add: bar_installed_eval job_of.simps eval_nat_numeral)
  have loop: "fst (install 3 example_env ''loop'' None True ForceCallback (init (\<lambda>pkg. None) [loop_remote] (Some True))) =
     Pending \<and>
   job_runs 0 (trace (snd (install 3 example_env ''loop'' None True ForceCallback
                             (init (\<lambda>pkg. None) [loop_remote] (Some True))))) = 1 \<and>
   dest_installs 0 (trace (snd (install 3 example_env ''loop'' None True ForceCallback
                             (init (\<lambda>pkg. None) [loop_remote] (Some True))))) = 0"
    by (simp add: loop_remote_def example_env_def Let_def eval_nat_numeral
      install.simps install_resolve.simps findDescriptor.simps findDescriptor_scan.simps
      findDescriptor_merge.simps descriptorFor.simps addDescriptor_appends inherits.simps prepare.simps prepare_body.simps
      install_package.simps buildDescriptorFromRemote.simps emit.simps alloc.simps
      set_installJob.simps set_prepareJob.simps install_dispatch.simps job_runs.simps dest_installs.simps)
  have once: "os_runs (foldl once_step once_init [Call 1, Call 2, Complete None, Call 3]) = 1 \<and>
   os_answers (foldl once_step once_init [Call 1, Call 2, Complete None, Call 3]) =
     [(1, None), (2, None), (3, None)]"
    by (simp add: once_init_def)
  show ?thesis using init inst counts res again loop once by simp
qed

end
